theory Spec2Isabelle
  imports Main "HOL-Library.Word"
begin

section \<open>Object storage: values, errors and the interface\<close>

text \<open>
  The package \<^verbatim>\<open>storage\<close> implements three object stores behind one interface
  (\<^verbatim>\<open>Get\<close>, \<^verbatim>\<open>Set\<close>, \<^verbatim>\<open>Delete\<close>): a map held in memory, a decorator that retries
  failed requests and a decorator that keeps an LRU cache in front of another store.

  A Go \<^verbatim>\<open>[]byte\<close> is either \<^verbatim>\<open>nil\<close> or a sequence of bytes. A Go \<^verbatim>\<open>error\<close> result is
  \<open>None\<close> for \<^verbatim>\<open>nil\<close> and \<open>Some e\<close> otherwise; the sentinel \<^verbatim>\<open>utahfs.ErrObjectNotFound\<close>
  is a constructor of its own, every other error carries its message.
\<close>

type_synonym byte = "8 word"

datatype bytes = nil | Bytes "byte list"

datatype error = ErrObjectNotFound | Error string

text \<open>
  An interface value is a method table over the state the methods act on. Each method
  takes the state of the store and returns its results with the state afterwards.
\<close>

record 's ObjectStorage =
  Get :: "string \<Rightarrow> 's \<Rightarrow> (bytes \<times> error option) \<times> 's"
  Set :: "string \<Rightarrow> bytes \<Rightarrow> 's \<Rightarrow> error option \<times> 's"
  Delete :: "string \<Rightarrow> 's \<Rightarrow> error option \<times> 's"

text \<open>A store as a constructor returns it: the method table and the state it starts in.\<close>

type_synonym 's store = "'s ObjectStorage \<times> 's"

subsection \<open>\<^verbatim>\<open>dup\<close>\<close>

text \<open>\<^verbatim>\<open>make([]byte, n)\<close> is \<open>n\<close> zero bytes; \<^verbatim>\<open>copy(dst, src)\<close> overwrites the first
  \<open>min (len dst) (len src)\<close> bytes of \<open>dst\<close>.\<close>

definition make_bytes :: "nat \<Rightarrow> byte list" where
  "make_bytes n = replicate n 0"

definition copy :: "byte list \<Rightarrow> byte list \<Rightarrow> byte list" where
  "copy dst src =
     (let n = min (length dst) (length src) in take n src @ drop n dst)"

definition dup :: "bytes \<Rightarrow> bytes" where
  "dup inp =
     (case inp of
        nil \<Rightarrow> nil
      | Bytes bs \<Rightarrow> Bytes (copy (make_bytes (length bs)) bs))"

section \<open>The store in memory\<close>

type_synonym memory = "string \<rightharpoonup> bytes"

definition memory_Get :: "string \<Rightarrow> memory \<Rightarrow> (bytes \<times> error option) \<times> memory" where
  "memory_Get key m =
     (case m key of
        None \<Rightarrow> ((nil, Some ErrObjectNotFound), m)
      | Some data \<Rightarrow> ((dup data, None), m))"

definition memory_Set :: "string \<Rightarrow> bytes \<Rightarrow> memory \<Rightarrow> error option \<times> memory" where
  "memory_Set key data m = (None, m(key \<mapsto> dup data))"

definition memory_Delete :: "string \<Rightarrow> memory \<Rightarrow> error option \<times> memory" where
  "memory_Delete key m = (None, m(key := None))"

definition memory :: "memory ObjectStorage" where
  "memory = \<lparr>Get = memory_Get, Set = memory_Set, Delete = memory_Delete\<rparr>"

definition NewMemory :: "memory store" where
  "NewMemory = (memory, Map.empty)"

section \<open>The retrying decorator\<close>

text \<open>
  \<^verbatim>\<open>retry\<close> holds the wrapped store and the number of attempts; its state is the state
  of the wrapped store. Each method is a counting loop over the named results, which
  start at their zero values.
\<close>

function retry_Get_loop ::
  "'s ObjectStorage \<Rightarrow> int \<Rightarrow> string \<Rightarrow> int \<Rightarrow> bytes \<times> error option \<Rightarrow> 's
     \<Rightarrow> (bytes \<times> error option) \<times> 's" where
  "retry_Get_loop base attempts key i r s =
     (if i < attempts then
        (let (r', s') = Get base key s in
         if snd r' = None \<or> snd r' = Some ErrObjectNotFound then (r', s')
         else retry_Get_loop base attempts key (i + 1) r' s')
      else (r, s))"
  by pat_completeness auto
termination
  by (relation "measure (\<lambda>(base, attempts, key, i, r, s). nat (attempts - i))") auto

function retry_Set_loop ::
  "'s ObjectStorage \<Rightarrow> int \<Rightarrow> string \<Rightarrow> bytes \<Rightarrow> int \<Rightarrow> error option \<Rightarrow> 's
     \<Rightarrow> error option \<times> 's" where
  "retry_Set_loop base attempts key data i err s =
     (if i < attempts then
        (let (err', s') = Set base key data s in
         if err' = None then (err', s')
         else retry_Set_loop base attempts key data (i + 1) err' s')
      else (err, s))"
  by pat_completeness auto
termination
  by (relation "measure (\<lambda>(base, attempts, key, data, i, err, s). nat (attempts - i))") auto

function retry_Delete_loop ::
  "'s ObjectStorage \<Rightarrow> int \<Rightarrow> string \<Rightarrow> int \<Rightarrow> error option \<Rightarrow> 's
     \<Rightarrow> error option \<times> 's" where
  "retry_Delete_loop base attempts key i err s =
     (if i < attempts then
        (let (err', s') = Delete base key s in
         if err' = None then (err', s')
         else retry_Delete_loop base attempts key (i + 1) err' s')
      else (err, s))"
  by pat_completeness auto
termination
  by (relation "measure (\<lambda>(base, attempts, key, i, err, s). nat (attempts - i))") auto

definition retry_Get ::
  "'s ObjectStorage \<Rightarrow> int \<Rightarrow> string \<Rightarrow> 's \<Rightarrow> (bytes \<times> error option) \<times> 's" where
  "retry_Get base attempts key s = retry_Get_loop base attempts key 0 (nil, None) s"

definition retry_Set ::
  "'s ObjectStorage \<Rightarrow> int \<Rightarrow> string \<Rightarrow> bytes \<Rightarrow> 's \<Rightarrow> error option \<times> 's" where
  "retry_Set base attempts key data s = retry_Set_loop base attempts key data 0 None s"

definition retry_Delete ::
  "'s ObjectStorage \<Rightarrow> int \<Rightarrow> string \<Rightarrow> 's \<Rightarrow> error option \<times> 's" where
  "retry_Delete base attempts key s = retry_Delete_loop base attempts key 0 None s"

definition retry :: "'s ObjectStorage \<Rightarrow> int \<Rightarrow> 's ObjectStorage" where
  "retry base attempts =
     \<lparr>Get = retry_Get base attempts,
      Set = retry_Set base attempts,
      Delete = retry_Delete base attempts\<rparr>"

definition NewRetry :: "'s store \<Rightarrow> int \<Rightarrow> error + 's store" where
  "NewRetry base attempts =
     (if attempts \<le> 0 then Inl (Error ''storage: attempts must be greater than zero'')
      else Inr (retry (fst base) attempts, snd base))"

section \<open>The LRU cache\<close>

text \<open>
  Modelled from the spec: the type \<^verbatim>\<open>lru.Cache\<close> (package golang-lru), whose code is not
  among the sources. It is a cache of fixed positive capacity with strict
  least-recently-used eviction: constructing it with a size that is not positive fails;
  a lookup that hits makes the entry the most recently used; adding a key that is absent
  puts it in front and, when the cache then holds more entries than its capacity, evicts
  the least recently used entry; adding a key that is present replaces its value and makes
  it the most recently used; removing drops the entry if there is one.
  The entries are listed from the most recently used to the least recently used. The
  values it holds are of any type (\<^verbatim>\<open>interface{}\<close>); the caching store puts byte slices in.
\<close>

record 'v lru =
  capacity :: int
  entries :: "(string \<times> 'v) list"

definition lru_New :: "int \<Rightarrow> error + 'v lru" where
  "lru_New sz =
     (if sz \<le> 0 then Inl (Error ''Must provide a positive size'')
      else Inr \<lparr>capacity = sz, entries = []\<rparr>)"

definition lru_Remove :: "'v lru \<Rightarrow> string \<Rightarrow> 'v lru" where
  "lru_Remove c key = c\<lparr>entries := filter (\<lambda>e. fst e \<noteq> key) (entries c)\<rparr>"

definition lru_Get :: "'v lru \<Rightarrow> string \<Rightarrow> 'v option \<times> 'v lru" where
  "lru_Get c key =
     (case map_of (entries c) key of
        None \<Rightarrow> (None, c)
      | Some val \<Rightarrow>
          (Some val, c\<lparr>entries := (key, val) # filter (\<lambda>e. fst e \<noteq> key) (entries c)\<rparr>))"

definition lru_Add :: "'v lru \<Rightarrow> string \<Rightarrow> 'v \<Rightarrow> 'v lru" where
  "lru_Add c key val =
     (case map_of (entries c) key of
        Some old \<Rightarrow> c\<lparr>entries := (key, val) # filter (\<lambda>e. fst e \<noteq> key) (entries c)\<rparr>
      | None \<Rightarrow>
          (let es = (key, val) # entries c
           in c\<lparr>entries := (if capacity c < int (length es) then butlast es else es)\<rparr>))"

section \<open>The caching decorator\<close>

text \<open>\<^verbatim>\<open>cache\<close> holds the wrapped store and the LRU cache; its state is the state of the
  wrapped store together with the cache.\<close>

definition cache_Get ::
  "'s ObjectStorage \<Rightarrow> string \<Rightarrow> 's \<times> bytes lru \<Rightarrow> (bytes \<times> error option) \<times> ('s \<times> bytes lru)" where
  "cache_Get base key st =
     (case st of (s, c) \<Rightarrow>
        (case lru_Get c key of
           (Some val, c') \<Rightarrow> ((dup val, None), (s, c'))
         | (None, c') \<Rightarrow>
             (let ((data, err), s') = Get base key s in
              if err \<noteq> None then ((nil, err), (s', c'))
              else ((data, None), (s', lru_Add c' key (dup data))))))"

definition cache_Set ::
  "'s ObjectStorage \<Rightarrow> string \<Rightarrow> bytes \<Rightarrow> 's \<times> bytes lru \<Rightarrow> error option \<times> ('s \<times> bytes lru)" where
  "cache_Set base key data st =
     (case st of (s, c) \<Rightarrow>
        (let c1 = lru_Remove c key;
             (err, s') = Set base key data s in
         if err \<noteq> None then (err, (s', c1))
         else (None, (s', lru_Add c1 key (dup data)))))"

definition cache_Delete ::
  "'s ObjectStorage \<Rightarrow> string \<Rightarrow> 's \<times> bytes lru \<Rightarrow> error option \<times> ('s \<times> bytes lru)" where
  "cache_Delete base key st =
     (case st of (s, c) \<Rightarrow>
        (let c1 = lru_Remove c key;
             (err, s') = Delete base key s in
         (err, (s', c1))))"

definition cache :: "'s ObjectStorage \<Rightarrow> ('s \<times> bytes lru) ObjectStorage" where
  "cache base =
     \<lparr>Get = cache_Get base, Set = cache_Set base, Delete = cache_Delete base\<rparr>"

definition NewCache :: "'s store \<Rightarrow> int \<Rightarrow> error + ('s \<times> bytes lru) store" where
  "NewCache base sz =
     (case lru_New sz of
        Inl err \<Rightarrow> Inl err
      | Inr c \<Rightarrow> Inr (cache (fst base), (snd base, c)))"

section \<open>Observing the calls a decorator makes\<close>

text \<open>
  To count the calls that reach a wrapped store, the store is put behind a recorder: a
  store that forwards every call unchanged and appends the call, with the error it
  returned, to a log kept beside the state of the wrapped store. A decorator over
  \<open>recorded base\<close> sees exactly the results of \<open>base\<close>, and the log lists the calls it made.
\<close>

datatype call = GetCall string | SetCall string bytes | DeleteCall string

type_synonym trace = "(call \<times> error option) list"

definition recorded :: "'s ObjectStorage \<Rightarrow> ('s \<times> trace) ObjectStorage" where
  "recorded base =
     \<lparr>Get = (\<lambda>key (s, log).
          let ((data, err), s') = Get base key s
          in ((data, err), (s', log @ [(GetCall key, err)]))),
      Set = (\<lambda>key data (s, log).
          let (err, s') = Set base key data s
          in (err, (s', log @ [(SetCall key data, err)]))),
      Delete = (\<lambda>key (s, log).
          let (err, s') = Delete base key s
          in (err, (s', log @ [(DeleteCall key, err)])))\<rparr>"

text \<open>
  The calls one retried operation makes, as the recorder logs them: at least one and at
  most \<open>N\<close>, all of them the call \<open>c\<close>, none but the last one final, the error returned
  being that of the last call, and \<open>N\<close> calls when the last one is not final either.
  \<open>final\<close> tells which outcomes end the loop.
\<close>

definition attempted ::
  "int \<Rightarrow> call \<Rightarrow> (error option \<Rightarrow> bool) \<Rightarrow> trace \<Rightarrow> error option \<Rightarrow> bool" where
  "attempted N c final tr err \<longleftrightarrow>
     tr \<noteq> [] \<and> int (length tr) \<le> N \<and>
     (\<forall>e\<in>set tr. fst e = c) \<and>
     (\<forall>e\<in>set (butlast tr). \<not> final (snd e)) \<and>
     err = snd (last tr) \<and>
     (\<not> final err \<longrightarrow> int (length tr) = N)"

text \<open>
  A backend for the examples: a store that is unavailable for a while. While its counter
  is positive, every call fails with a backend error and counts down; afterwards every
  call goes to the store behind it.
\<close>

definition flaky :: "'s ObjectStorage \<Rightarrow> (nat \<times> 's) ObjectStorage" where
  "flaky base =
     \<lparr>Get = (\<lambda>key (n, s).
          if 0 < n then ((nil, Some (Error ''unavailable'')), (n - 1, s))
          else (let (r, s') = Get base key s in (r, (n, s')))),
      Set = (\<lambda>key data (n, s).
          if 0 < n then (Some (Error ''unavailable''), (n - 1, s))
          else (let (err, s') = Set base key data s in (err, (n, s')))),
      Delete = (\<lambda>key (n, s).
          if 0 < n then (Some (Error ''unavailable''), (n - 1, s))
          else (let (err, s') = Delete base key s in (err, (n, s'))))\<rparr>"

section \<open>Sequences of operations\<close>

text \<open>One call of a method, and a sequence of calls made one after the other on a store;
  \<open>run\<close> keeps the state and drops the results.\<close>

datatype op = OpGet string | OpSet string bytes | OpDelete string

fun op_key :: "op \<Rightarrow> string" where
  "op_key (OpGet key) = key"
| "op_key (OpSet key data) = key"
| "op_key (OpDelete key) = key"

fun step :: "'s ObjectStorage \<Rightarrow> 's \<Rightarrow> op \<Rightarrow> 's" where
  "step st s (OpGet key) = snd (Get st key s)"
| "step st s (OpSet key data) = snd (Set st key data s)"
| "step st s (OpDelete key) = snd (Delete st key s)"

definition run :: "'s ObjectStorage \<Rightarrow> op list \<Rightarrow> 's \<Rightarrow> 's" where
  "run st ops s = foldl (step st) s ops"

text \<open>
  \<open>inserts base ops st\<close>: every call of \<open>ops\<close>, made in turn on the caching store over
  \<open>base\<close> from the state \<open>st\<close>, puts its key into the cache: it is a \<^verbatim>\<open>Get\<close> that misses the
  cache and that the wrapped store answers without error, or a \<^verbatim>\<open>Set\<close> that the wrapped
  store accepts.
\<close>

fun inserts :: "'s ObjectStorage \<Rightarrow> op list \<Rightarrow> 's \<times> bytes lru \<Rightarrow> bool" where
  "inserts base [] st = True"
| "inserts base (OpGet key # ops) st =
     (fst (lru_Get (snd st) key) = None \<and> snd (fst (Get base key (fst st))) = None \<and>
      inserts base ops (step (cache base) st (OpGet key)))"
| "inserts base (OpSet key data # ops) st =
     (fst (Set base key data (fst st)) = None \<and>
      inserts base ops (step (cache base) st (OpSet key data)))"
| "inserts base (OpDelete key # ops) st = False"

text \<open>
  The invariant of the cache: \<^verbatim>\<open>lru.New\<close> gives a cache of positive capacity, and it never
  holds more entries than its capacity nor two entries for one key.
  \<open>cached_keys\<close> lists the keys held, the most recently used first.
\<close>

definition lru_inv :: "'v lru \<Rightarrow> bool" where
  "lru_inv c \<longleftrightarrow>
     0 < capacity c \<and> int (length (entries c)) \<le> capacity c \<and> distinct (map fst (entries c))"

definition cached_keys :: "'v lru \<Rightarrow> string list" where
  "cached_keys c = map fst (entries c)"

section \<open>Stores built by the constructors\<close>

text \<open>
  The states a store can be in: those that some sequence of calls leads to from the state
  its constructor returned it in.
\<close>

definition reachable :: "'s store \<Rightarrow> 's \<Rightarrow> bool" where
  "reachable b s \<longleftrightarrow> (\<exists>ops. s = run (fst b) ops (snd b))"

text \<open>
  Reading back what was written: in every state the store can be in, when \<^verbatim>\<open>Set\<close> of a key
  and a value returns no error, the \<^verbatim>\<open>Get\<close> of the key made next returns the value and no
  error.
\<close>

definition set_get_law :: "'s store \<Rightarrow> bool" where
  "set_get_law b \<longleftrightarrow>
     (\<forall>s key data s1.
        reachable b s \<and> Set (fst b) key data s = (None, s1) \<longrightarrow>
        fst (Get (fst b) key s1) = (data, None))"

text \<open>
  The history of a sequence of calls: each call with the error it returned. The writes of
  a key in a history are the \<^verbatim>\<open>Set\<close> and \<^verbatim>\<open>Delete\<close> calls of the key that returned no error;
  a key is unset when it has no such write or the last one is a \<^verbatim>\<open>Delete\<close>.
\<close>

fun outcome :: "'s ObjectStorage \<Rightarrow> 's \<Rightarrow> op \<Rightarrow> error option" where
  "outcome st s (OpGet key) = snd (fst (Get st key s))"
| "outcome st s (OpSet key data) = fst (Set st key data s)"
| "outcome st s (OpDelete key) = fst (Delete st key s)"

fun history :: "'s ObjectStorage \<Rightarrow> op list \<Rightarrow> 's \<Rightarrow> (op \<times> error option) list" where
  "history st [] s = []"
| "history st (x # ops) s = (x, outcome st s x) # history st ops (step st s x)"

fun is_write :: "op \<Rightarrow> bool" where
  "is_write (OpGet key) = False"
| "is_write (OpSet key data) = True"
| "is_write (OpDelete key) = True"

fun is_Delete :: "op \<Rightarrow> bool" where
  "is_Delete (OpDelete key) = True"
| "is_Delete x = False"

definition writes :: "string \<Rightarrow> (op \<times> error option) list \<Rightarrow> op list" where
  "writes key h =
     map fst (filter (\<lambda>e. op_key (fst e) = key \<and> is_write (fst e) \<and> snd e = None) h)"

definition unset :: "string \<Rightarrow> (op \<times> error option) list \<Rightarrow> bool" where
  "unset key h \<longleftrightarrow> (case rev (writes key h) of [] \<Rightarrow> True | x # xs \<Rightarrow> is_Delete x)"

text \<open>
  Missing keys: after any sequence of calls from the state the constructor returned the
  store in, \<^verbatim>\<open>Get\<close> of a key that the history leaves unset returns \<^verbatim>\<open>ErrObjectNotFound\<close>.
\<close>

definition not_found_law :: "'s store \<Rightarrow> bool" where
  "not_found_law b \<longleftrightarrow>
     (\<forall>ops key.
        unset key (history (fst b) ops (snd b)) \<longrightarrow>
        snd (fst (Get (fst b) key (run (fst b) ops (snd b)))) = Some ErrObjectNotFound)"

section \<open>Byte slices in memory\<close>

text \<open>
  Where a claim is about who can write to which bytes, a byte slice is no longer a value
  but a reference: the memory holds arrays of bytes, found by their address, and a slice
  is either \<^verbatim>\<open>nil\<close> or a window (an offset and a length) into one array. Allocating
  appends an array, so a new array has the address \<open>length h\<close>. A write through any slice
  of an array at the address \<open>a\<close> changes that array: \<open>h[a := bs]\<close>.
  The definitions of this section are the source's functions again, over slices in memory;
  their names end in \<open>_h\<close>.
\<close>

type_synonym heap = "byte list list"

datatype slice = nil_slice | Slice nat nat nat

text \<open>The bytes a slice shows, and the slices that lie within an allocated array.\<close>

definition read_slice :: "heap \<Rightarrow> slice \<Rightarrow> bytes" where
  "read_slice h sl =
     (case sl of
        nil_slice \<Rightarrow> nil
      | Slice a off n \<Rightarrow> Bytes (take n (drop off (h ! a))))"

definition valid :: "heap \<Rightarrow> slice \<Rightarrow> bool" where
  "valid h sl =
     (case sl of
        nil_slice \<Rightarrow> True
      | Slice a off n \<Rightarrow> a < length h \<and> off + n \<le> length (h ! a))"

text \<open>\<^verbatim>\<open>make([]byte, n)\<close> allocates an array of \<open>n\<close> zero bytes; \<^verbatim>\<open>copy(dst, src)\<close> writes into
  the window of \<open>dst\<close>.\<close>

definition make_slice :: "nat \<Rightarrow> heap \<Rightarrow> slice \<times> heap" where
  "make_slice n h = (Slice (length h) 0 n, h @ [make_bytes n])"

definition copy_slice :: "slice \<Rightarrow> slice \<Rightarrow> heap \<Rightarrow> heap" where
  "copy_slice dst src h =
     (case (dst, src) of
        (Slice a off n, Slice a' off' n') \<Rightarrow>
          h[a := take off (h ! a)
                 @ copy (take n (drop off (h ! a))) (take n' (drop off' (h ! a')))
                 @ drop (off + n) (h ! a)]
      | _ \<Rightarrow> h)"

definition dup_h :: "slice \<Rightarrow> heap \<Rightarrow> slice \<times> heap" where
  "dup_h inp h =
     (case inp of
        nil_slice \<Rightarrow> (nil_slice, h)
      | Slice a off n \<Rightarrow>
          (let (out, h1) = make_slice n h
           in (out, copy_slice out inp h1)))"

subsection \<open>The store in memory, over slices\<close>

type_synonym memory_h = "string \<rightharpoonup> slice"

definition memory_Get_h ::
  "string \<Rightarrow> memory_h \<Rightarrow> heap \<Rightarrow> (slice \<times> error option) \<times> memory_h \<times> heap" where
  "memory_Get_h key m h =
     (case m key of
        None \<Rightarrow> ((nil_slice, Some ErrObjectNotFound), m, h)
      | Some data \<Rightarrow> (let (out, h') = dup_h data h in ((out, None), m, h')))"

definition memory_Set_h ::
  "string \<Rightarrow> slice \<Rightarrow> memory_h \<Rightarrow> heap \<Rightarrow> error option \<times> memory_h \<times> heap" where
  "memory_Set_h key data m h =
     (let (out, h') = dup_h data h in (None, m(key \<mapsto> out), h'))"

definition memory_Delete_h ::
  "string \<Rightarrow> memory_h \<Rightarrow> heap \<Rightarrow> error option \<times> memory_h \<times> heap" where
  "memory_Delete_h key m h = (None, m(key := None), h)"

text \<open>The slices a store holds lie in allocated arrays; \<open>contents\<close> is the store as the
  values its slices show.\<close>

definition stored_valid :: "memory_h \<Rightarrow> heap \<Rightarrow> bool" where
  "stored_valid m h \<longleftrightarrow> (\<forall>key sl. m key = Some sl \<longrightarrow> valid h sl)"

definition contents :: "memory_h \<Rightarrow> heap \<Rightarrow> memory" where
  "contents m h = (\<lambda>key. map_option (read_slice h) (m key))"

subsection \<open>The caching decorator, over slices\<close>

record 's Storage_h =
  Get_h :: "string \<Rightarrow> 's \<Rightarrow> heap \<Rightarrow> (slice \<times> error option) \<times> 's \<times> heap"
  Set_h :: "string \<Rightarrow> slice \<Rightarrow> 's \<Rightarrow> heap \<Rightarrow> error option \<times> 's \<times> heap"
  Delete_h :: "string \<Rightarrow> 's \<Rightarrow> heap \<Rightarrow> error option \<times> 's \<times> heap"

definition cache_Get_h ::
  "'s Storage_h \<Rightarrow> string \<Rightarrow> 's \<times> slice lru \<Rightarrow> heap
     \<Rightarrow> (slice \<times> error option) \<times> ('s \<times> slice lru) \<times> heap" where
  "cache_Get_h base key st h =
     (case st of (s, c) \<Rightarrow>
        (case lru_Get c key of
           (Some val, c') \<Rightarrow>
             (let (out, h') = dup_h val h in ((out, None), (s, c'), h'))
         | (None, c') \<Rightarrow>
             (let ((data, err), s', h1) = Get_h base key s h in
              if err \<noteq> None then ((nil_slice, err), (s', c'), h1)
              else (let (cp, h2) = dup_h data h1
                    in ((data, None), (s', lru_Add c' key cp), h2)))))"

definition cache_Set_h ::
  "'s Storage_h \<Rightarrow> string \<Rightarrow> slice \<Rightarrow> 's \<times> slice lru \<Rightarrow> heap
     \<Rightarrow> error option \<times> ('s \<times> slice lru) \<times> heap" where
  "cache_Set_h base key data st h =
     (case st of (s, c) \<Rightarrow>
        (let c1 = lru_Remove c key;
             (err, s', h1) = Set_h base key data s h in
         if err \<noteq> None then (err, (s', c1), h1)
         else (let (cp, h2) = dup_h data h1
               in (None, (s', lru_Add c1 key cp), h2))))"

definition cache_Delete_h ::
  "'s Storage_h \<Rightarrow> string \<Rightarrow> 's \<times> slice lru \<Rightarrow> heap
     \<Rightarrow> error option \<times> ('s \<times> slice lru) \<times> heap" where
  "cache_Delete_h base key st h =
     (case st of (s, c) \<Rightarrow>
        (let c1 = lru_Remove c key;
             (err, s', h1) = Delete_h base key s h in
         (err, (s', c1), h1)))"

text \<open>The slices the cache holds lie in allocated arrays.\<close>

definition cached_valid :: "slice lru \<Rightarrow> heap \<Rightarrow> bool" where
  "cached_valid c h \<longleftrightarrow> (\<forall>key sl. map_of (entries c) key = Some sl \<longrightarrow> valid h sl)"

definition memory_h :: "memory_h Storage_h" where
  "memory_h = \<lparr>Get_h = memory_Get_h, Set_h = memory_Set_h, Delete_h = memory_Delete_h\<rparr>"

section \<open>Properties of the retrying decorator\<close>

declare retry_Get_loop.simps [simp del]
declare retry_Set_loop.simps [simp del]
declare retry_Delete_loop.simps [simp del]

lemma retry_one_Get: "retry_Get base 1 = Get base"
  by (rule ext)+ (simp add: retry_Get_def retry_Get_loop.simps split: prod.splits)

lemma retry_one_Set: "retry_Set base 1 = Set base"
  by (rule ext)+ (simp add: retry_Set_def retry_Set_loop.simps split: prod.splits)

lemma retry_one_Delete: "retry_Delete base 1 = Delete base"
  by (rule ext)+ (simp add: retry_Delete_def retry_Delete_loop.simps split: prod.splits)

lemma retry_one: "retry base 1 = base"
  by (simp add: retry_def retry_one_Get retry_one_Set retry_one_Delete)

lemma recorded_Get:
  "Get (recorded base) key (s, log) =
     (case Get base key s of ((d, e), s') \<Rightarrow> ((d, e), (s', log @ [(GetCall key, e)])))"
  by (simp add: recorded_def split: prod.splits)

lemma retry_Get_loop_trace:
  "retry_Get_loop (recorded base) n key i r (s, log) = (r', (s', log')) \<Longrightarrow>
   \<exists>tr. log' = log @ tr \<and> length tr \<le> nat (n - i) \<and>
        (\<forall>e\<in>set tr. fst e = GetCall key) \<and>
        (\<forall>e\<in>set (butlast tr). snd e \<noteq> None \<and> snd e \<noteq> Some ErrObjectNotFound) \<and>
        (tr = [] \<longrightarrow> r' = r) \<and>
        (tr \<noteq> [] \<longrightarrow> snd r' = snd (last tr)) \<and>
        ((tr = [] \<or> (snd (last tr) \<noteq> None \<and> snd (last tr) \<noteq> Some ErrObjectNotFound))
           \<longrightarrow> length tr = nat (n - i))"
proof (induction "nat (n - i)" arbitrary: i r s log)
  case 0
  then have "\<not> i < n" by simp
  with 0(2) have "log' = log" "r' = r"
    by (simp_all add: retry_Get_loop.simps [of _ n key i])
  with 0(1) show ?case by simp
next
  case (Suc m)
  then have lt: "i < n" by simp
  obtain d e s1 where g: "Get base key s = ((d, e), s1)"
    by (metis surj_pair)
  show ?case
  proof (cases "e = None \<or> e = Some ErrObjectNotFound")
    case True
    with Suc(3) lt g have "log' = log @ [(GetCall key, e)]" "r' = (d, e)"
      by (auto simp add: retry_Get_loop.simps [of _ n key i] recorded_Get)
    with True lt show ?thesis
      by (intro exI [of _ "[(GetCall key, e)]"]) auto
  next
    case False
    with Suc(3) lt g have
      "retry_Get_loop (recorded base) n key (i + 1) (d, e) (s1, log @ [(GetCall key, e)])
         = (r', (s', log'))"
      by (auto simp add: retry_Get_loop.simps [of _ n key i] recorded_Get)
    moreover from Suc(2) have "m = nat (n - (i + 1))" by simp
    ultimately obtain tr where tr:
      "log' = (log @ [(GetCall key, e)]) @ tr" "length tr \<le> nat (n - (i + 1))"
      "\<forall>e\<in>set tr. fst e = GetCall key"
      "\<forall>e\<in>set (butlast tr). snd e \<noteq> None \<and> snd e \<noteq> Some ErrObjectNotFound"
      "tr = [] \<longrightarrow> r' = (d, e)"
      "tr \<noteq> [] \<longrightarrow> snd r' = snd (last tr)"
      "(tr = [] \<or> (snd (last tr) \<noteq> None \<and> snd (last tr) \<noteq> Some ErrObjectNotFound))
           \<longrightarrow> length tr = nat (n - (i + 1))"
      using Suc(1) by blast
    from lt have n: "nat (n - i) = Suc (nat (n - (i + 1)))" by simp
    show ?thesis
    proof (intro exI [of _ "(GetCall key, e) # tr"] conjI)
      show "log' = log @ (GetCall key, e) # tr" using tr(1) by simp
      show "length ((GetCall key, e) # tr) \<le> nat (n - i)" using tr(2) n by simp
      show "\<forall>e\<in>set ((GetCall key, e) # tr). fst e = GetCall key" using tr(3) by simp
      show "\<forall>e\<in>set (butlast ((GetCall key, e) # tr)).
              snd e \<noteq> None \<and> snd e \<noteq> Some ErrObjectNotFound"
        using tr(4) False by auto
      show "(GetCall key, e) # tr = [] \<longrightarrow> r' = r" by simp
      show "(GetCall key, e) # tr \<noteq> [] \<longrightarrow> snd r' = snd (last ((GetCall key, e) # tr))"
        using tr(5,6) by auto
      show "((GetCall key, e) # tr = [] \<or>
             (snd (last ((GetCall key, e) # tr)) \<noteq> None \<and>
              snd (last ((GetCall key, e) # tr)) \<noteq> Some ErrObjectNotFound))
           \<longrightarrow> length ((GetCall key, e) # tr) = nat (n - i)"
        using tr(7) n by auto
    qed
  qed
qed

lemma recorded_Set:
  "Set (recorded base) key data (s, log) =
     (case Set base key data s of (e, s') \<Rightarrow> (e, (s', log @ [(SetCall key data, e)])))"
  by (simp add: recorded_def split: prod.splits)

lemma retry_Set_loop_trace:
  "retry_Set_loop (recorded base) n key data i err (s, log) = (err', (s', log')) \<Longrightarrow>
   \<exists>tr. log' = log @ tr \<and> length tr \<le> nat (n - i) \<and>
        (\<forall>e\<in>set tr. fst e = SetCall key data) \<and>
        (\<forall>e\<in>set (butlast tr). snd e \<noteq> None) \<and>
        (tr = [] \<longrightarrow> err' = err) \<and>
        (tr \<noteq> [] \<longrightarrow> err' = snd (last tr)) \<and>
        ((tr = [] \<or> snd (last tr) \<noteq> None) \<longrightarrow> length tr = nat (n - i))"
proof (induction "nat (n - i)" arbitrary: i err s log)
  case 0
  then have "\<not> i < n" by simp
  with 0(2) have "log' = log" "err' = err"
    by (simp_all add: retry_Set_loop.simps [of _ n key data i])
  with 0(1) show ?case by simp
next
  case (Suc m)
  then have lt: "i < n" by simp
  obtain e s1 where g: "Set base key data s = (e, s1)"
    by (metis surj_pair)
  show ?case
  proof (cases "e = None")
    case True
    with Suc(3) lt g have "log' = log @ [(SetCall key data, e)]" "err' = e"
      by (auto simp add: retry_Set_loop.simps [of _ n key data i] recorded_Set)
    with True lt show ?thesis
      by (intro exI [of _ "[(SetCall key data, e)]"]) auto
  next
    case False
    with Suc(3) lt g have
      "retry_Set_loop (recorded base) n key data (i + 1) e (s1, log @ [(SetCall key data, e)])
         = (err', (s', log'))"
      by (auto simp add: retry_Set_loop.simps [of _ n key data i] recorded_Set)
    moreover from Suc(2) have "m = nat (n - (i + 1))" by simp
    ultimately obtain tr where tr:
      "log' = (log @ [(SetCall key data, e)]) @ tr" "length tr \<le> nat (n - (i + 1))"
      "\<forall>e\<in>set tr. fst e = SetCall key data"
      "\<forall>e\<in>set (butlast tr). snd e \<noteq> None"
      "tr = [] \<longrightarrow> err' = e"
      "tr \<noteq> [] \<longrightarrow> err' = snd (last tr)"
      "(tr = [] \<or> snd (last tr) \<noteq> None) \<longrightarrow> length tr = nat (n - (i + 1))"
      using Suc(1) by blast
    from lt have n: "nat (n - i) = Suc (nat (n - (i + 1)))" by simp
    show ?thesis
    proof (intro exI [of _ "(SetCall key data, e) # tr"] conjI)
      show "log' = log @ (SetCall key data, e) # tr" using tr(1) by simp
      show "length ((SetCall key data, e) # tr) \<le> nat (n - i)" using tr(2) n by simp
      show "\<forall>e\<in>set ((SetCall key data, e) # tr). fst e = SetCall key data" using tr(3) by simp
      show "\<forall>e\<in>set (butlast ((SetCall key data, e) # tr)). snd e \<noteq> None"
        using tr(4) False by auto
      show "(SetCall key data, e) # tr = [] \<longrightarrow> err' = err" by simp
      show "(SetCall key data, e) # tr \<noteq> [] \<longrightarrow> err' = snd (last ((SetCall key data, e) # tr))"
        using tr(5,6) by auto
      show "((SetCall key data, e) # tr = [] \<or> snd (last ((SetCall key data, e) # tr)) \<noteq> None)
           \<longrightarrow> length ((SetCall key data, e) # tr) = nat (n - i)"
        using tr(7) n by auto
    qed
  qed
qed


lemma recorded_Delete:
  "Delete (recorded base) key (s, log) =
     (case Delete base key s of (e, s') \<Rightarrow> (e, (s', log @ [(DeleteCall key, e)])))"
  by (simp add: recorded_def split: prod.splits)

lemma retry_Delete_loop_trace:
  "retry_Delete_loop (recorded base) n key i err (s, log) = (err', (s', log')) \<Longrightarrow>
   \<exists>tr. log' = log @ tr \<and> length tr \<le> nat (n - i) \<and>
        (\<forall>e\<in>set tr. fst e = DeleteCall key) \<and>
        (\<forall>e\<in>set (butlast tr). snd e \<noteq> None) \<and>
        (tr = [] \<longrightarrow> err' = err) \<and>
        (tr \<noteq> [] \<longrightarrow> err' = snd (last tr)) \<and>
        ((tr = [] \<or> snd (last tr) \<noteq> None) \<longrightarrow> length tr = nat (n - i))"
proof (induction "nat (n - i)" arbitrary: i err s log)
  case 0
  then have "\<not> i < n" by simp
  with 0(2) have "log' = log" "err' = err"
    by (simp_all add: retry_Delete_loop.simps [of _ n key i])
  with 0(1) show ?case by simp
next
  case (Suc m)
  then have lt: "i < n" by simp
  obtain e s1 where g: "Delete base key s = (e, s1)"
    by (metis surj_pair)
  show ?case
  proof (cases "e = None")
    case True
    with Suc(3) lt g have "log' = log @ [(DeleteCall key, e)]" "err' = e"
      by (auto simp add: retry_Delete_loop.simps [of _ n key i] recorded_Delete)
    with True lt show ?thesis
      by (intro exI [of _ "[(DeleteCall key, e)]"]) auto
  next
    case False
    with Suc(3) lt g have
      "retry_Delete_loop (recorded base) n key (i + 1) e (s1, log @ [(DeleteCall key, e)])
         = (err', (s', log'))"
      by (auto simp add: retry_Delete_loop.simps [of _ n key i] recorded_Delete)
    moreover from Suc(2) have "m = nat (n - (i + 1))" by simp
    ultimately obtain tr where tr:
      "log' = (log @ [(DeleteCall key, e)]) @ tr" "length tr \<le> nat (n - (i + 1))"
      "\<forall>e\<in>set tr. fst e = DeleteCall key"
      "\<forall>e\<in>set (butlast tr). snd e \<noteq> None"
      "tr = [] \<longrightarrow> err' = e"
      "tr \<noteq> [] \<longrightarrow> err' = snd (last tr)"
      "(tr = [] \<or> snd (last tr) \<noteq> None) \<longrightarrow> length tr = nat (n - (i + 1))"
      using Suc(1) by blast
    from lt have n: "nat (n - i) = Suc (nat (n - (i + 1)))" by simp
    show ?thesis
    proof (intro exI [of _ "(DeleteCall key, e) # tr"] conjI)
      show "log' = log @ (DeleteCall key, e) # tr" using tr(1) by simp
      show "length ((DeleteCall key, e) # tr) \<le> nat (n - i)" using tr(2) n by simp
      show "\<forall>e\<in>set ((DeleteCall key, e) # tr). fst e = DeleteCall key" using tr(3) by simp
      show "\<forall>e\<in>set (butlast ((DeleteCall key, e) # tr)). snd e \<noteq> None"
        using tr(4) False by auto
      show "(DeleteCall key, e) # tr = [] \<longrightarrow> err' = err" by simp
      show "(DeleteCall key, e) # tr \<noteq> [] \<longrightarrow> err' = snd (last ((DeleteCall key, e) # tr))"
        using tr(5,6) by auto
      show "((DeleteCall key, e) # tr = [] \<or> snd (last ((DeleteCall key, e) # tr)) \<noteq> None)
           \<longrightarrow> length ((DeleteCall key, e) # tr) = nat (n - i)"
        using tr(7) n by auto
    qed
  qed
qed

text \<open>
  Claim C10. A retrying store constructed with one attempt behaves as the store it wraps:
  the constructor succeeds, each of \<^verbatim>\<open>Get\<close>, \<^verbatim>\<open>Set\<close> and \<^verbatim>\<open>Delete\<close> returns the results
  and leaves the state of one call of the wrapped method, and behind a recorder the log
  grows by exactly that one call with the error it returned.
\<close>

theorem retry_one_attempt_is_base:
  "NewRetry (base, s0) 1 = Inr (retry base 1, s0) \<and>
   Get (retry base 1) key s = Get base key s \<and>
   Set (retry base 1) key data s = Set base key data s \<and>
   Delete (retry base 1) key s = Delete base key s \<and>
   snd (snd (Get (retry (recorded base) 1) key (s, log)))
     = log @ [(GetCall key, snd (fst (Get base key s)))] \<and>
   snd (snd (Set (retry (recorded base) 1) key data (s, log)))
     = log @ [(SetCall key data, fst (Set base key data s))] \<and>
   snd (snd (Delete (retry (recorded base) 1) key (s, log)))
     = log @ [(DeleteCall key, fst (Delete base key s))]"
  by (simp add: NewRetry_def retry_one recorded_Get recorded_Set recorded_Delete
      split: prod.splits)

text \<open>
  Claim C5. With \<open>N > 0\<close> attempts, each of \<^verbatim>\<open>Get\<close>, \<^verbatim>\<open>Set\<close> and \<^verbatim>\<open>Delete\<close> calls the
  wrapped method at least once and at most \<open>N\<close> times, one call after the other, stops at
  the first call that succeeds and returns its error result; when no call succeeds it makes
  exactly \<open>N\<close> calls and returns the error of the last one. For \<^verbatim>\<open>Get\<close> a call that
  answers \<^verbatim>\<open>ErrObjectNotFound\<close> ends the loop like a success (claim C6).
\<close>

theorem retry_attempts:
  assumes "0 < N"
  shows
    "(retry_Get (recorded base) N key (s, log) = ((d, err), (s1, log1)) \<longrightarrow>
        (\<exists>tr. log1 = log @ tr \<and>
           attempted N (GetCall key) (\<lambda>e. e = None \<or> e = Some ErrObjectNotFound) tr err)) \<and>
     (retry_Set (recorded base) N key data (s, log) = (err2, (s2, log2)) \<longrightarrow>
        (\<exists>tr. log2 = log @ tr \<and> attempted N (SetCall key data) (\<lambda>e. e = None) tr err2)) \<and>
     (retry_Delete (recorded base) N key (s, log) = (err3, (s3, log3)) \<longrightarrow>
        (\<exists>tr. log3 = log @ tr \<and> attempted N (DeleteCall key) (\<lambda>e. e = None) tr err3))"
proof (intro conjI impI)
  assume "retry_Get (recorded base) N key (s, log) = ((d, err), (s1, log1))"
  then have "retry_Get_loop (recorded base) N key 0 (nil, None) (s, log) = ((d, err), (s1, log1))"
    by (simp add: retry_Get_def)
  from retry_Get_loop_trace [OF this] assms
  show "\<exists>tr. log1 = log @ tr \<and>
          attempted N (GetCall key) (\<lambda>e. e = None \<or> e = Some ErrObjectNotFound) tr err"
    unfolding attempted_def by (elim exE conjE, intro exI) auto
next
  assume "retry_Set (recorded base) N key data (s, log) = (err2, (s2, log2))"
  then have "retry_Set_loop (recorded base) N key data 0 None (s, log) = (err2, (s2, log2))"
    by (simp add: retry_Set_def)
  from retry_Set_loop_trace [OF this] assms
  show "\<exists>tr. log2 = log @ tr \<and> attempted N (SetCall key data) (\<lambda>e. e = None) tr err2"
    unfolding attempted_def by (elim exE conjE, intro exI) auto
next
  assume "retry_Delete (recorded base) N key (s, log) = (err3, (s3, log3))"
  then have "retry_Delete_loop (recorded base) N key 0 None (s, log) = (err3, (s3, log3))"
    by (simp add: retry_Delete_def)
  from retry_Delete_loop_trace [OF this] assms
  show "\<exists>tr. log3 = log @ tr \<and> attempted N (DeleteCall key) (\<lambda>e. e = None) tr err3"
    unfolding attempted_def by (elim exE conjE, intro exI) auto
qed

theorem retry_attempts_witness:
  "(0::int) < 3 \<and>
   retry_Get (recorded (flaky memory)) 3 ''k'' ((5, Map.empty), []) =
     ((nil, Some (Error ''unavailable'')),
      ((2, Map.empty), replicate 3 (GetCall ''k'', Some (Error ''unavailable'')))) \<and>
   retry_Set (recorded (flaky memory)) 3 ''k'' (Bytes [1]) ((5, Map.empty), []) =
     (Some (Error ''unavailable''),
      ((2, Map.empty), replicate 3 (SetCall ''k'' (Bytes [1]), Some (Error ''unavailable'')))) \<and>
   retry_Delete (recorded (flaky memory)) 3 ''k'' ((5, Map.empty), []) =
     (Some (Error ''unavailable''),
      ((2, Map.empty), replicate 3 (DeleteCall ''k'', Some (Error ''unavailable'')))) \<and>
   attempted 3 (GetCall ''k'') (\<lambda>e. e = None \<or> e = Some ErrObjectNotFound)
     (replicate 3 (GetCall ''k'', Some (Error ''unavailable''))) (Some (Error ''unavailable'')) \<and>
   attempted 3 (SetCall ''k'' (Bytes [1])) (\<lambda>e. e = None)
     (replicate 3 (SetCall ''k'' (Bytes [1]), Some (Error ''unavailable'')))
     (Some (Error ''unavailable'')) \<and>
   attempted 3 (DeleteCall ''k'') (\<lambda>e. e = None)
     (replicate 3 (DeleteCall ''k'', Some (Error ''unavailable''))) (Some (Error ''unavailable''))"
proof -
  have g: "retry_Get (recorded (flaky memory)) 3 ''k'' ((5, Map.empty), []) =
     ((nil, Some (Error ''unavailable'')),
      ((2, Map.empty), replicate 3 (GetCall ''k'', Some (Error ''unavailable''))))"
    by (simp add: retry_Get_def retry_Get_loop.simps recorded_Get flaky_def numeral_3_eq_3)
  have s: "retry_Set (recorded (flaky memory)) 3 ''k'' (Bytes [1]) ((5, Map.empty), []) =
     (Some (Error ''unavailable''),
      ((2, Map.empty), replicate 3 (SetCall ''k'' (Bytes [1]), Some (Error ''unavailable''))))"
    by (simp add: retry_Set_def retry_Set_loop.simps recorded_Set flaky_def numeral_3_eq_3)
  have d: "retry_Delete (recorded (flaky memory)) 3 ''k'' ((5, Map.empty), []) =
     (Some (Error ''unavailable''),
      ((2, Map.empty), replicate 3 (DeleteCall ''k'', Some (Error ''unavailable''))))"
    by (simp add: retry_Delete_def retry_Delete_loop.simps recorded_Delete flaky_def
        numeral_3_eq_3)
  have p: "(0::int) < 3" by simp
  from retry_attempts [OF p, of "flaky memory" "''k''" "(5, Map.empty)" "[]" nil "Some (Error ''unavailable'')"
      "(2, Map.empty)" _
      "Bytes [1]" "Some (Error ''unavailable'')" "(2, Map.empty)" _
      "Some (Error ''unavailable'')" "(2, Map.empty)" _]
  show ?thesis using g s d by simp
qed

text \<open>
  Claim C6. When a call of the wrapped \<^verbatim>\<open>Get\<close> answers \<^verbatim>\<open>ErrObjectNotFound\<close>, in whatever
  iteration of the loop, \<^verbatim>\<open>retry.Get\<close> returns the result and the state of that call at
  once; in the log of the calls one \<^verbatim>\<open>retry.Get\<close> makes, a call answered with
  \<^verbatim>\<open>ErrObjectNotFound\<close> is the last one, and \<^verbatim>\<open>ErrObjectNotFound\<close> is the error returned.
\<close>

theorem retry_Get_stops_at_NotFound:
  "(i < N \<and> Get base key s = ((d, Some ErrObjectNotFound), s1) \<longrightarrow>
      retry_Get_loop base N key i r0 s = ((d, Some ErrObjectNotFound), s1)) \<and>
   (retry_Get (recorded base) N key (s, log) = (r, (s2, log2)) \<longrightarrow>
      (\<exists>tr. log2 = log @ tr \<and>
         (\<forall>j<length tr. snd (tr ! j) = Some ErrObjectNotFound \<longrightarrow>
            Suc j = length tr \<and> snd r = Some ErrObjectNotFound)))"
proof (intro conjI impI)
  assume "i < N \<and> Get base key s = ((d, Some ErrObjectNotFound), s1)"
  then show "retry_Get_loop base N key i r0 s = ((d, Some ErrObjectNotFound), s1)"
    by (simp add: retry_Get_loop.simps [of base N key i])
next
  assume "retry_Get (recorded base) N key (s, log) = (r, (s2, log2))"
  then have "retry_Get_loop (recorded base) N key 0 (nil, None) (s, log) = (r, (s2, log2))"
    by (simp add: retry_Get_def)
  from retry_Get_loop_trace [OF this] obtain tr where tr:
    "log2 = log @ tr"
    "\<forall>e\<in>set (butlast tr). snd e \<noteq> None \<and> snd e \<noteq> Some ErrObjectNotFound"
    "tr \<noteq> [] \<longrightarrow> snd r = snd (last tr)"
    by blast
  have "Suc j = length tr \<and> snd r = Some ErrObjectNotFound"
    if j: "j < length tr" and nf: "snd (tr ! j) = Some ErrObjectNotFound" for j
  proof -
    have "\<not> j < length (butlast tr)"
    proof
      assume "j < length (butlast tr)"
      then have "butlast tr ! j \<in> set (butlast tr)" and "butlast tr ! j = tr ! j"
        by (rule nth_mem, rule nth_butlast)
      with tr(2) nf show False by auto
    qed
    with j have lastj: "Suc j = length tr" by simp
    from j have ne: "tr \<noteq> []" by auto
    from lastj have "j = length tr - 1" by simp
    with ne have "last tr = tr ! j" by (simp add: last_conv_nth)
    note this ne
    with tr(3) nf lastj show ?thesis by simp
  qed
  with tr(1) show "\<exists>tr. log2 = log @ tr \<and>
         (\<forall>j<length tr. snd (tr ! j) = Some ErrObjectNotFound \<longrightarrow>
            Suc j = length tr \<and> snd r = Some ErrObjectNotFound)"
    by blast
qed

theorem retry_Get_stops_at_NotFound_witness:
  "(1::int) < 3 \<and>
   Get (flaky memory) ''k'' (0, Map.empty) = ((nil, Some ErrObjectNotFound), (0, Map.empty)) \<and>
   retry_Get_loop (flaky memory) 3 ''k'' 1 (nil, Some (Error ''unavailable'')) (0, Map.empty)
     = ((nil, Some ErrObjectNotFound), (0, Map.empty)) \<and>
   retry_Get (recorded (flaky memory)) 3 ''k'' ((1, Map.empty), []) =
     ((nil, Some ErrObjectNotFound),
      ((0, Map.empty),
       [(GetCall ''k'', Some (Error ''unavailable'')), (GetCall ''k'', Some ErrObjectNotFound)])) \<and>
   snd ([(GetCall ''k'', Some (Error ''unavailable'')),
         (GetCall ''k'', Some ErrObjectNotFound)] ! 1) = Some ErrObjectNotFound \<and>
   Suc 1 = length [(GetCall ''k'', Some (Error ''unavailable'')),
                   (GetCall ''k'', Some ErrObjectNotFound)]"
proof -
  have g: "Get (flaky memory) ''k'' (0, Map.empty)
             = ((nil, Some ErrObjectNotFound), (0, Map.empty))"
    by (simp add: flaky_def memory_def memory_Get_def)
  have r: "retry_Get (recorded (flaky memory)) 3 ''k'' ((1, Map.empty), []) =
     ((nil, Some ErrObjectNotFound),
      ((0, Map.empty),
       [(GetCall ''k'', Some (Error ''unavailable'')), (GetCall ''k'', Some ErrObjectNotFound)]))"
    by (simp add: retry_Get_def retry_Get_loop.simps recorded_Get flaky_def memory_def
        memory_Get_def)
  from retry_Get_stops_at_NotFound [of 1 3 "flaky memory" "''k''" "(0, Map.empty)" nil
      "(0, Map.empty)" "(nil, Some (Error ''unavailable''))"]
  show ?thesis using g r by simp
qed

section \<open>Properties of the caching decorator\<close>

lemma dup_id: "dup b = b"
  by (cases b) (simp_all add: dup_def copy_def make_bytes_def)

lemma map_of_filter_key: "map_of (filter (\<lambda>e. fst e \<noteq> key) es) key = None"
  by (induction es) auto

lemma lru_Remove_absent: "map_of (entries (lru_Remove c key)) key = None"
  by (simp add: lru_Remove_def map_of_filter_key)

lemma lru_Get_miss: "map_of (entries c) key = None \<Longrightarrow> lru_Get c key = (None, c)"
  by (simp add: lru_Get_def)

lemma lru_Get_hit:
  "map_of (entries c) key = Some val \<Longrightarrow>
   lru_Get c key = (Some val, c\<lparr>entries := (key, val) # filter (\<lambda>e. fst e \<noteq> key) (entries c)\<rparr>)"
  by (simp add: lru_Get_def)

lemma lru_Get_fst: "fst (lru_Get c key) = map_of (entries c) key"
  by (simp add: lru_Get_def split: option.splits)

lemma lru_Add_held:
  "0 < capacity c \<Longrightarrow> map_of (entries (lru_Add c key val)) key = Some val"
  by (cases "entries c") (auto simp add: lru_Add_def Let_def split: option.splits)

lemma cached_keys_Remove: "cached_keys (lru_Remove c k) = filter (\<lambda>x. x \<noteq> k) (cached_keys c)"
  by (simp add: cached_keys_def lru_Remove_def filter_map comp_def)

lemma capacity_Remove: "capacity (lru_Remove c k) = capacity c"
  by (simp add: lru_Remove_def)

lemma map_of_None_cached: "map_of (entries c) k = None \<longleftrightarrow> k \<notin> set (cached_keys c)"
  by (simp add: cached_keys_def map_of_eq_None_iff)

lemma cached_keys_Add_absent:
  assumes "k \<notin> set (cached_keys c)" "int (length (cached_keys c)) \<le> capacity c"
  shows "cached_keys (lru_Add c k v) = take (nat (capacity c)) (k # cached_keys c)"
proof -
  from assms(1) have m: "map_of (entries c) k = None" by (simp add: map_of_None_cached)
  have cons: "k # cached_keys c = map fst ((k, v) # entries c)" by (simp add: cached_keys_def)
  show ?thesis
  proof (cases "capacity c < int (length (entries c)) + 1")
    case True
    with assms(2) have n: "nat (capacity c) = length (entries c)" by (simp add: cached_keys_def)
    from True m have "cached_keys (lru_Add c k v) = map fst (butlast ((k, v) # entries c))"
      by (simp add: lru_Add_def cached_keys_def del: butlast.simps)
    also have "\<dots> = map fst (take (nat (capacity c)) ((k, v) # entries c))"
      by (simp add: butlast_conv_take n del: butlast.simps)
    also have "\<dots> = take (nat (capacity c)) (k # cached_keys c)"
      unfolding cons by (rule take_map [symmetric])
    finally show ?thesis .
  next
    case False
    then have "length (k # cached_keys c) \<le> nat (capacity c)" by (simp add: cached_keys_def)
    with False m show ?thesis by (simp add: lru_Add_def cached_keys_def)
  qed
qed

lemma capacity_Add: "capacity (lru_Add c k v) = capacity c"
  by (simp add: lru_Add_def Let_def split: option.splits)

lemma run_append: "run st (ops @ ops') s = run st ops' (run st ops s)"
  by (simp add: run_def)

lemma run_Cons: "run st (x # ops) s = run st ops (step st s x)"
  by (simp add: run_def)

lemma run_Nil: "run st [] s = s"
  by (simp add: run_def)

lemma inserts_append:
  "inserts base (ops @ ops') st \<longleftrightarrow>
     inserts base ops st \<and> inserts base ops' (run (cache base) ops st)"
proof (induction ops arbitrary: st)
  case Nil
  show ?case by (simp add: run_Nil)
next
  case (Cons x ops)
  then show ?case by (cases x) (simp_all add: run_Cons)
qed

lemma insert_step:
  assumes "lru_inv c" and "inserts base [x] (s, c)"
  shows "lru_inv (snd (step (cache base) (s, c) x)) \<and>
         capacity (snd (step (cache base) (s, c) x)) = capacity c \<and>
         cached_keys (snd (step (cache base) (s, c) x))
           = take (nat (capacity c)) (op_key x # filter (\<lambda>k. k \<noteq> op_key x) (cached_keys c))"
proof -
  have inv: "lru_inv c'"
    if "capacity c' = capacity c"
      and "cached_keys c' = take (nat (capacity c)) (k # filter (\<lambda>k'. k' \<noteq> k) (cached_keys c))" for c' k
  proof -
    from assms(1) have "distinct (k # filter (\<lambda>k'. k' \<noteq> k) (cached_keys c))"
      by (simp add: lru_inv_def cached_keys_def)
    then have "distinct (cached_keys c')" unfolding that(2) by (rule distinct_take)
    moreover have "length (cached_keys c') \<le> nat (capacity c)"
      unfolding that(2) by simp
    with assms(1) have "int (length (cached_keys c')) \<le> capacity c"
      unfolding lru_inv_def by linarith
    ultimately show ?thesis using assms(1) that(1) by (simp add: lru_inv_def cached_keys_def)
  qed
  show ?thesis
  proof (cases x)
    case (OpGet k)
    with assms(2) have miss: "map_of (entries c) k = None"
      and ok: "snd (fst (Get base k s)) = None"
      by (simp_all add: lru_Get_fst)
    obtain d s1 where g: "Get base k s = ((d, None), s1)"
      using ok by (metis prod.collapse)
    have st: "snd (Get (cache base) k (s, c)) = (s1, lru_Add c k (dup d))"
      by (simp add: cache_def cache_Get_def lru_Get_miss miss g)
    from miss have notin: "k \<notin> set (cached_keys c)" by (simp add: map_of_None_cached)
    then have f: "filter (\<lambda>k'. k' \<noteq> k) (cached_keys c) = cached_keys c"
      by (auto simp add: filter_id_conv)
    from assms(1) have len: "int (length (cached_keys c)) \<le> capacity c"
      by (simp add: lru_inv_def cached_keys_def)
    have k: "cached_keys (lru_Add c k (dup d)) = take (nat (capacity c)) (k # cached_keys c)"
      by (rule cached_keys_Add_absent [OF notin len])
    show ?thesis
      using inv [of "lru_Add c k (dup d)" k] k
      by (simp add: st OpGet capacity_Add f)
  next
    case (OpSet k v)
    with assms(2) have ok: "fst (Set base k v s) = None" by simp
    obtain s1 where g: "Set base k v s = (None, s1)"
      using ok by (metis prod.collapse)
    have st: "snd (Set (cache base) k v (s, c)) = (s1, lru_Add (lru_Remove c k) k (dup v))"
      by (simp add: cache_def cache_Set_def g)
    have notin: "k \<notin> set (cached_keys (lru_Remove c k))" by (simp add: cached_keys_Remove)
    from assms(1) have "int (length (cached_keys c)) \<le> capacity c"
      by (simp add: lru_inv_def cached_keys_def)
    moreover have "int (length (filter (\<lambda>x. x \<noteq> k) (cached_keys c))) \<le> int (length (cached_keys c))"
      by simp
    ultimately have "int (length (filter (\<lambda>x. x \<noteq> k) (cached_keys c))) \<le> capacity c"
      by (rule order_trans [rotated])
    then have len: "int (length (cached_keys (lru_Remove c k))) \<le> capacity (lru_Remove c k)"
      by (simp add: cached_keys_Remove capacity_Remove)
    have k: "cached_keys (lru_Add (lru_Remove c k) k (dup v))
               = take (nat (capacity c)) (k # filter (\<lambda>x. x \<noteq> k) (cached_keys c))"
      using cached_keys_Add_absent [OF notin len] by (simp add: capacity_Remove cached_keys_Remove)
    show ?thesis
      using inv [of "lru_Add (lru_Remove c k) k (dup v)" k] k
      by (simp add: st OpSet capacity_Add capacity_Remove)
  next
    case (OpDelete k)
    with assms(2) show ?thesis by simp
  qed
qed

lemma inserts_keys:
  assumes "lru_inv c"
  shows "inserts base ops (s, c) \<Longrightarrow> distinct (map op_key ops) \<Longrightarrow>
         lru_inv (snd (run (cache base) ops (s, c))) \<and>
         capacity (snd (run (cache base) ops (s, c))) = capacity c \<and>
         (\<exists>rest. cached_keys (snd (run (cache base) ops (s, c)))
                   = take (nat (capacity c)) (rev (map op_key ops)) @ rest)"
proof (induction ops rule: rev_induct)
  case Nil
  with assms show ?case by (simp add: run_Nil)
next
  case (snoc x ops)
  obtain s1 c1 where st1: "run (cache base) ops (s, c) = (s1, c1)"
    by (metis surj_pair)
  from snoc.prems have ins: "inserts base ops (s, c)" "inserts base [x] (s1, c1)"
    and dist: "distinct (map op_key ops)" and fresh: "op_key x \<notin> set (map op_key ops)"
    by (simp_all add: inserts_append st1)
  from snoc.IH [OF ins(1) dist] obtain rest where ih:
    "lru_inv c1" "capacity c1 = capacity c"
    "cached_keys c1 = take (nat (capacity c)) (rev (map op_key ops)) @ rest"
    by (auto simp add: st1)
  let ?k = "op_key x" and ?C = "nat (capacity c)" and ?ks = "rev (map op_key ops)"
  from insert_step [OF ih(1) ins(2)] have step:
    "lru_inv (snd (step (cache base) (s1, c1) x))"
    "capacity (snd (step (cache base) (s1, c1) x)) = capacity c"
    "cached_keys (snd (step (cache base) (s1, c1) x))
       = take ?C (?k # filter (\<lambda>k. k \<noteq> ?k) (cached_keys c1))"
    by (simp_all add: ih(2))
  from fresh have "?k \<notin> set (take ?C ?ks)"
    by (metis in_set_takeD set_rev)
  then have f: "filter (\<lambda>k. k \<noteq> ?k) (take ?C ?ks) = take ?C ?ks"
    by (auto simp add: filter_id_conv)
  from assms obtain C' where C: "?C = Suc C'"
    by (cases ?C) (simp_all add: lru_inv_def)
  have "cached_keys (snd (step (cache base) (s1, c1) x))
          = take ?C (?k # take ?C ?ks @ filter (\<lambda>k. k \<noteq> ?k) rest)"
    by (simp add: step(3) ih(3) f)
  also have "\<dots> = ?k # take C' (take ?C ?ks) @ take (C' - length (take ?C ?ks))
                       (filter (\<lambda>k. k \<noteq> ?k) rest)"
    by (simp add: C)
  finally have k: "cached_keys (snd (step (cache base) (s1, c1) x))
       = ?k # take C' (take ?C ?ks) @ take (C' - length (take ?C ?ks))
                       (filter (\<lambda>k. k \<noteq> ?k) rest)" .
  have "take C' (take ?C ?ks) = take C' ?ks"
    by (simp add: C min_def)
  moreover have "take ?C (rev (map op_key (ops @ [x]))) = ?k # take C' ?ks"
    by (simp add: C)
  ultimately have "cached_keys (snd (step (cache base) (s1, c1) x))
       = take ?C (rev (map op_key (ops @ [x]))) @ take (C' - length (take ?C ?ks))
                       (filter (\<lambda>k. k \<noteq> ?k) rest)"
    using k by simp
  then have "\<exists>rest'. cached_keys (snd (step (cache base) (s1, c1) x))
                  = take ?C (rev (map op_key (ops @ [x]))) @ rest'"
    by (rule exI)
  with step(1,2) show ?case
    by (simp add: run_append st1 run_Cons run_Nil)
qed

lemma cache_Get_miss_calls:
  assumes "k \<notin> set (cached_keys c)"
  shows "\<exists>r s2 c2 err. Get (cache (recorded base)) k ((s, log), c)
           = (r, ((s2, log @ [(GetCall k, err)]), c2))"
proof -
  from assms have "lru_Get c k = (None, c)"
    by (simp add: lru_Get_miss map_of_None_cached)
  then show ?thesis
    by (auto simp add: cache_def cache_Get_def recorded_Get split: prod.splits)
qed

lemma cache_Get_hit_no_call:
  assumes "k \<in> set (cached_keys c)"
  shows "\<exists>d c2. Get (cache base) k (s, c) = ((d, None), (s, c2))"
proof -
  from assms obtain v where "map_of (entries c) k = Some v"
    by (cases "map_of (entries c) k") (simp_all add: map_of_None_cached)
  then show ?thesis
    by (simp add: cache_def cache_Get_def lru_Get_hit)
qed

text \<open>
  Claim C4. When \<^verbatim>\<open>cache.Set\<close> is called and the \<^verbatim>\<open>Set\<close> of the wrapped store fails, that
  error is returned as it is and the cache is left without an entry for the key (the entry
  it may have had was removed before the write), so that a \<^verbatim>\<open>Get\<close> of the key made next
  calls the wrapped store. Whenever the cache holds the key after \<^verbatim>\<open>cache.Set\<close>, the wrapped
  write has succeeded.
\<close>

theorem cache_Set_failure:
  "(Set base key data s = (Some e, s1) \<longrightarrow>
      cache_Set base key data (s, c) = (Some e, (s1, lru_Remove c key)) \<and>
      fst (lru_Get (lru_Remove c key) key) = None \<and>
      (\<forall>log. \<exists>r s2 c2 err.
         cache_Get (recorded base) key ((s1, log), lru_Remove c key)
           = (r, ((s2, log @ [(GetCall key, err)]), c2)))) \<and>
   (cache_Set base key data (s, c) = (err', (s', c')) \<and> fst (lru_Get c' key) \<noteq> None \<longrightarrow>
      err' = None \<and> fst (Set base key data s) = None)"
proof (intro conjI impI)
  assume "cache_Set base key data (s, c) = (err', (s', c')) \<and> fst (lru_Get c' key) \<noteq> None"
  then show "err' = None" and "fst (Set base key data s) = None"
    by (auto simp add: cache_Set_def Let_def lru_Get_fst lru_Remove_absent
        split: prod.splits if_splits)
qed (auto simp add: cache_Set_def cache_Get_def lru_Get_fst lru_Remove_absent lru_Get_miss
      recorded_Get split: prod.splits)

text \<open>
  Claim C8. When \<^verbatim>\<open>cache.Get\<close> misses the cache and the \<^verbatim>\<open>Get\<close> of the wrapped store
  fails, with \<^verbatim>\<open>ErrObjectNotFound\<close> or any other error, that error is returned as it is and
  the cache is exactly what it was before the call.
\<close>

theorem cache_Get_failure:
  assumes "fst (lru_Get c key) = None" and "Get base key s = ((d, Some e), s1)"
  shows "cache_Get base key (s, c) = ((nil, Some e), (s1, c))"
  using assms by (simp add: cache_Get_def lru_Get_fst lru_Get_miss)

text \<open>
  Claim C7. After a \<^verbatim>\<open>cache.Set\<close> of a key that succeeded, on a cache of positive capacity
  (\<^verbatim>\<open>NewCache\<close> makes no other), the \<^verbatim>\<open>cache.Get\<close> of the key made next returns the value
  that was set and no error, and makes no call to the wrapped store: the state of the
  wrapped store and the log of its calls are unchanged.
\<close>

theorem cache_Set_then_Get:
  assumes "0 < capacity c"
    and "cache_Set (recorded base) key data ((s, log), c) = (None, ((s1, log1), c1))"
  shows "\<exists>c2. cache_Get (recorded base) key ((s1, log1), c1) = ((data, None), ((s1, log1), c2))"
proof -
  from assms(2) have c1: "c1 = lru_Add (lru_Remove c key) key (dup data)"
    by (auto simp add: cache_Set_def Let_def split: prod.splits if_splits)
  from assms(1) have "0 < capacity (lru_Remove c key)" by (simp add: lru_Remove_def)
  then have "map_of (entries c1) key = Some data"
    unfolding c1 by (simp add: lru_Add_held dup_id)
  then show ?thesis
    by (simp add: cache_Get_def lru_Get_hit dup_id)
qed

text \<open>
  Claim C3. Take a cache of capacity \<open>C\<close> and \<open>C + 1\<close> calls with distinct keys, each of
  which puts its key into the cache (a \<^verbatim>\<open>Get\<close> that misses and is filled from the wrapped
  store, or a \<^verbatim>\<open>Set\<close> that succeeds). Afterwards the cache holds the keys of the last \<open>C\<close> calls
  and not the key of the first one, the least recently used: a \<^verbatim>\<open>Get\<close> of the first key calls
  the wrapped store, a \<^verbatim>\<open>Get\<close> of any of the other keys returns without error and without a
  call to the wrapped store.
\<close>

theorem cache_evicts_least_recently_used:
  assumes "lru_inv c"
    and "inserts (recorded base) ops ((s, log), c)"
    and "distinct (map op_key ops)"
    and "int (length ops) = capacity c + 1"
    and "run (cache (recorded base)) ops ((s, log), c) = ((s1, log1), c1)"
  shows "map fst (entries c1) = rev (map op_key (tl ops)) \<and>
         (\<exists>r s2 c2 err. Get (cache (recorded base)) (op_key (hd ops)) ((s1, log1), c1)
            = (r, ((s2, log1 @ [(GetCall (op_key (hd ops)), err)]), c2))) \<and>
         (\<forall>k\<in>set (map op_key (tl ops)).
            \<exists>d c2. Get (cache (recorded base)) k ((s1, log1), c1) = ((d, None), ((s1, log1), c2)))"
proof -
  let ?ks = "map op_key ops" and ?C = "nat (capacity c)"
  from inserts_keys [OF assms(1,2,3)] assms(5) obtain rest where
    inv: "lru_inv c1" and cap: "capacity c1 = capacity c"
    and k: "cached_keys c1 = take ?C (rev ?ks) @ rest"
    by auto
  from assms(1,4) have "length ops = Suc ?C" unfolding lru_inv_def by linarith
  then have len: "length ?ks = Suc ?C" by simp
  then have "length (take ?C (rev ?ks)) = ?C" by simp
  moreover from inv cap have "length (cached_keys c1) \<le> ?C"
    by (simp add: lru_inv_def cached_keys_def) linarith
  ultimately have "rest = []" using k by simp
  with k have "cached_keys c1 = take ?C (rev ?ks)" by simp
  also have "\<dots> = rev (drop (length ?ks - ?C) ?ks)" by (simp add: take_rev)
  also have "length ?ks - ?C = 1" unfolding len by simp
  also have "rev (drop 1 ?ks) = rev (tl ?ks)" by (simp add: drop_Suc)
  finally have keys: "cached_keys c1 = rev (map op_key (tl ops))" by (simp add: map_tl)
  from len obtain x xs where ops: "ops = x # xs" by (cases ops) simp_all
  with assms(3) have "op_key (hd ops) \<notin> set (cached_keys c1)" by (simp add: keys ops)
  from cache_Get_miss_calls [OF this]
  have miss: "\<exists>r s2 c2 err. Get (cache (recorded base)) (op_key (hd ops)) ((s1, log1), c1)
            = (r, ((s2, log1 @ [(GetCall (op_key (hd ops)), err)]), c2))" .
  have hit: "\<exists>d c2. Get (cache (recorded base)) k ((s1, log1), c1) = ((d, None), ((s1, log1), c2))"
    if "k \<in> set (map op_key (tl ops))" for k
  proof -
    from that have "k \<in> set (cached_keys c1)" by (simp add: keys)
    then show ?thesis by (rule cache_Get_hit_no_call)
  qed
  from keys miss hit show ?thesis by (simp add: cached_keys_def)
qed

subsection \<open>The properties of the caching decorator on examples\<close>

theorem cache_Set_failure_witness:
  "Set (flaky memory) ''k'' (Bytes [1]) (1, Map.empty)
     = (Some (Error ''unavailable''), (0, Map.empty)) \<and>
   cache_Set (flaky memory) ''k'' (Bytes [1])
       ((1, Map.empty), \<lparr>capacity = 2, entries = [(''k'', Bytes [9])]\<rparr>)
     = (Some (Error ''unavailable''), ((0, Map.empty), (\<lparr>capacity = 2, entries = []\<rparr> :: bytes lru))) \<and>
   fst (lru_Get (\<lparr>capacity = 2, entries = []\<rparr> :: bytes lru) ''k'') = None \<and>
   cache_Get (recorded (flaky memory)) ''k'' (((0, Map.empty), []), (\<lparr>capacity = 2, entries = []\<rparr> :: bytes lru))
     = ((nil, Some ErrObjectNotFound),
        (((0, Map.empty), [(GetCall ''k'', Some ErrObjectNotFound)]),
         (\<lparr>capacity = 2, entries = []\<rparr> :: bytes lru)))"
proof -
  have h: "Set (flaky memory) ''k'' (Bytes [1]) (1, Map.empty)
     = (Some (Error ''unavailable''), (0, Map.empty))"
    by (simp add: flaky_def)
  have r: "lru_Remove \<lparr>capacity = 2, entries = [(''k'', Bytes [9])]\<rparr> ''k''
             = (\<lparr>capacity = 2, entries = []\<rparr> :: bytes lru)"
    by (simp add: lru_Remove_def)
  have g: "cache_Get (recorded (flaky memory)) ''k''
      (((0, Map.empty), []), (\<lparr>capacity = 2, entries = []\<rparr> :: bytes lru))
     = ((nil, Some ErrObjectNotFound),
        (((0, Map.empty), [(GetCall ''k'', Some ErrObjectNotFound)]),
         (\<lparr>capacity = 2, entries = []\<rparr> :: bytes lru)))"
    by (simp add: cache_Get_def lru_Get_def recorded_Get flaky_def memory_def memory_Get_def)
  from cache_Set_failure [of "flaky memory" "''k''" "Bytes [1]" "(1, Map.empty)"
      "Error ''unavailable''" "(0, Map.empty)" "\<lparr>capacity = 2, entries = [(''k'', Bytes [9])]\<rparr>"]
  show ?thesis using h r g by simp
qed

theorem cache_Get_failure_witness:
  "fst (lru_Get \<lparr>capacity = 2, entries = [(''a'', Bytes [1])]\<rparr> ''k'') = None \<and>
   Get memory ''k'' Map.empty = ((nil, Some ErrObjectNotFound), Map.empty) \<and>
   cache_Get memory ''k'' (Map.empty, \<lparr>capacity = 2, entries = [(''a'', Bytes [1])]\<rparr>)
     = ((nil, Some ErrObjectNotFound),
        (Map.empty, \<lparr>capacity = 2, entries = [(''a'', Bytes [1])]\<rparr>))"
proof -
  have m: "fst (lru_Get \<lparr>capacity = 2, entries = [(''a'', Bytes [1])]\<rparr> ''k'') = None"
    by (simp add: lru_Get_def)
  have g: "Get memory ''k'' Map.empty = ((nil, Some ErrObjectNotFound), Map.empty)"
    by (simp add: memory_def memory_Get_def)
  from cache_Get_failure [OF m g] m g show ?thesis by simp
qed

theorem cache_Set_then_Get_witness:
  "(0::int) < capacity \<lparr>capacity = 1, entries = [(''a'', Bytes [7])]\<rparr> \<and>
   cache_Set (recorded memory) ''k'' (Bytes [1])
       ((Map.empty, []), \<lparr>capacity = 1, entries = [(''a'', Bytes [7])]\<rparr>)
     = (None, (([''k'' \<mapsto> Bytes [1]], [(SetCall ''k'' (Bytes [1]), None)]),
               \<lparr>capacity = 1, entries = [(''k'', Bytes [1])]\<rparr>)) \<and>
   cache_Get (recorded memory) ''k''
       (([''k'' \<mapsto> Bytes [1]], [(SetCall ''k'' (Bytes [1]), None)]),
        \<lparr>capacity = 1, entries = [(''k'', Bytes [1])]\<rparr>)
     = ((Bytes [1], None),
        (([''k'' \<mapsto> Bytes [1]], [(SetCall ''k'' (Bytes [1]), None)]),
         \<lparr>capacity = 1, entries = [(''k'', Bytes [1])]\<rparr>))"
proof -
  have p: "(0::int) < capacity \<lparr>capacity = 1, entries = [(''a'', Bytes [7])]\<rparr>" by simp
  have s: "cache_Set (recorded memory) ''k'' (Bytes [1])
       ((Map.empty, []), \<lparr>capacity = 1, entries = [(''a'', Bytes [7])]\<rparr>)
     = (None, (([''k'' \<mapsto> Bytes [1]], [(SetCall ''k'' (Bytes [1]), None)]),
               \<lparr>capacity = 1, entries = [(''k'', Bytes [1])]\<rparr>))"
    by (simp add: cache_Set_def recorded_Set memory_def memory_Set_def lru_Remove_def
        lru_Add_def dup_id)
  from cache_Set_then_Get [OF p s] obtain c2 where
    "cache_Get (recorded memory) ''k''
       (([''k'' \<mapsto> Bytes [1]], [(SetCall ''k'' (Bytes [1]), None)]),
        \<lparr>capacity = 1, entries = [(''k'', Bytes [1])]\<rparr>)
     = ((Bytes [1], None),
        (([''k'' \<mapsto> Bytes [1]], [(SetCall ''k'' (Bytes [1]), None)]), c2))" ..
  moreover have "snd (snd (cache_Get (recorded memory) ''k''
       (([''k'' \<mapsto> Bytes [1]], [(SetCall ''k'' (Bytes [1]), None)]),
        \<lparr>capacity = 1, entries = [(''k'', Bytes [1])]\<rparr>)))
     = \<lparr>capacity = 1, entries = [(''k'', Bytes [1])]\<rparr>"
    by (simp add: cache_Get_def lru_Get_def)
  ultimately show ?thesis using p s by simp
qed

theorem cache_evicts_least_recently_used_witness:
  "lru_inv (\<lparr>capacity = 2, entries = []\<rparr> :: bytes lru) \<and>
   inserts (recorded memory) [OpSet ''a'' (Bytes [1]), OpSet ''b'' (Bytes [2]), OpGet ''c'']
     (([''c'' \<mapsto> Bytes [3]], []), (\<lparr>capacity = 2, entries = []\<rparr> :: bytes lru)) \<and>
   distinct (map op_key [OpSet ''a'' (Bytes [1]), OpSet ''b'' (Bytes [2]), OpGet ''c'']) \<and>
   int (length [OpSet ''a'' (Bytes [1]), OpSet ''b'' (Bytes [2]), OpGet ''c''])
     = capacity (\<lparr>capacity = 2, entries = []\<rparr> :: bytes lru) + 1 \<and>
   run (cache (recorded memory)) [OpSet ''a'' (Bytes [1]), OpSet ''b'' (Bytes [2]), OpGet ''c'']
     (([''c'' \<mapsto> Bytes [3]], []), (\<lparr>capacity = 2, entries = []\<rparr> :: bytes lru))
     = (([''c'' \<mapsto> Bytes [3], ''a'' \<mapsto> Bytes [1], ''b'' \<mapsto> Bytes [2]],
         [(SetCall ''a'' (Bytes [1]), None), (SetCall ''b'' (Bytes [2]), None),
          (GetCall ''c'', None)]),
        \<lparr>capacity = 2, entries = [(''c'', Bytes [3]), (''b'', Bytes [2])]\<rparr>) \<and>
   map fst (entries \<lparr>capacity = 2, entries = [(''c'', Bytes [3]), (''b'', Bytes [2])]\<rparr>)
     = rev (map op_key (tl [OpSet ''a'' (Bytes [1]), OpSet ''b'' (Bytes [2]), OpGet ''c''])) \<and>
   Get (cache (recorded memory)) ''a''
     (([''c'' \<mapsto> Bytes [3], ''a'' \<mapsto> Bytes [1], ''b'' \<mapsto> Bytes [2]],
       [(SetCall ''a'' (Bytes [1]), None), (SetCall ''b'' (Bytes [2]), None),
        (GetCall ''c'', None)]),
      \<lparr>capacity = 2, entries = [(''c'', Bytes [3]), (''b'', Bytes [2])]\<rparr>)
     = ((Bytes [1], None),
        (([''c'' \<mapsto> Bytes [3], ''a'' \<mapsto> Bytes [1], ''b'' \<mapsto> Bytes [2]],
          [(SetCall ''a'' (Bytes [1]), None), (SetCall ''b'' (Bytes [2]), None),
           (GetCall ''c'', None), (GetCall ''a'', None)]),
         \<lparr>capacity = 2, entries = [(''a'', Bytes [1]), (''c'', Bytes [3])]\<rparr>)) \<and>
   Get (cache (recorded memory)) ''b''
     (([''c'' \<mapsto> Bytes [3], ''a'' \<mapsto> Bytes [1], ''b'' \<mapsto> Bytes [2]],
       [(SetCall ''a'' (Bytes [1]), None), (SetCall ''b'' (Bytes [2]), None),
        (GetCall ''c'', None)]),
      \<lparr>capacity = 2, entries = [(''c'', Bytes [3]), (''b'', Bytes [2])]\<rparr>)
     = ((Bytes [2], None),
        (([''c'' \<mapsto> Bytes [3], ''a'' \<mapsto> Bytes [1], ''b'' \<mapsto> Bytes [2]],
          [(SetCall ''a'' (Bytes [1]), None), (SetCall ''b'' (Bytes [2]), None),
           (GetCall ''c'', None)]),
         \<lparr>capacity = 2, entries = [(''b'', Bytes [2]), (''c'', Bytes [3])]\<rparr>))"
  (is "?inv \<and> ?ins \<and> ?dist \<and> ?len \<and> ?run \<and> ?keys \<and> ?miss \<and> ?hit")
proof -
  have inv: ?inv by (simp add: lru_inv_def)
  have ins: ?ins
    by (simp add: cache_def cache_Set_def cache_Get_def recorded_Set recorded_Get memory_def
        memory_Set_def memory_Get_def lru_Remove_def lru_Add_def lru_Get_def dup_id)
  have dist: ?dist by simp
  have len: ?len by simp
  have run: ?run
    by (simp add: run_def cache_def cache_Set_def cache_Get_def recorded_Set recorded_Get
        memory_def memory_Set_def memory_Get_def lru_Remove_def lru_Add_def lru_Get_def dup_id)
  have miss: ?miss
    by (simp add: cache_def cache_Get_def recorded_Get memory_def memory_Get_def lru_Add_def
        lru_Get_def dup_id)
  have hit: ?hit
    by (simp add: cache_def cache_Get_def lru_Get_def dup_id)
  from cache_evicts_least_recently_used [OF inv ins dist len run]
  have ?keys by simp
  with inv ins dist len run miss hit show ?thesis by blast
qed

section \<open>Reading back what was written\<close>

text \<open>A state that the retrying store reaches is one that the wrapped store reaches: every
  call of the decorator is a number of calls of the wrapped store.\<close>

lemma reachable_init: "reachable b (snd b)"
  unfolding reachable_def by (rule exI [of _ "[]"]) (simp add: run_Nil)

lemma reachable_run: "reachable (st, s0) s \<Longrightarrow> reachable (st, s0) (run st ops s)"
  unfolding reachable_def by (auto simp add: run_append [symmetric])

lemma reachable_step: "reachable (st, s0) s \<Longrightarrow> reachable (st, s0) (step st s x)"
  using reachable_run [of st s0 s "[x]"] by (simp add: run_Cons run_Nil)

lemma retry_Get_loop_state:
  "\<exists>j. snd (retry_Get_loop base n key i r s) = run base (replicate j (OpGet key)) s"
proof (induction "nat (n - i)" arbitrary: i r s)
  case 0
  then have "\<not> i < n" by simp
  then have "snd (retry_Get_loop base n key i r s) = run base (replicate 0 (OpGet key)) s"
    by (simp add: retry_Get_loop.simps [of base n key i] run_Nil)
  then show ?case by (rule exI)
next
  case (Suc m)
  then have lt: "i < n" and m: "m = nat (n - (i + 1))" by simp_all
  obtain r1 s1 where g: "Get base key s = (r1, s1)" by (metis surj_pair)
  show ?case
  proof (cases "snd r1 = None \<or> snd r1 = Some ErrObjectNotFound")
    case True
    with lt g have "snd (retry_Get_loop base n key i r s) = run base (replicate 1 (OpGet key)) s"
      by (simp add: retry_Get_loop.simps [of base n key i] run_Cons run_Nil)
    then show ?thesis by (rule exI)
  next
    case False
    from Suc(1) [OF m, of r1 s1] obtain j where
      "snd (retry_Get_loop base n key (i + 1) r1 s1) = run base (replicate j (OpGet key)) s1"
      by blast
    with lt g
    have "snd (retry_Get_loop base n key i r s) = run base (replicate (Suc j) (OpGet key)) s"
      by (simp add: retry_Get_loop.simps [of base n key i] run_Cons False)
    then show ?thesis by (rule exI)
  qed
qed

lemma retry_Delete_loop_state:
  "\<exists>j. snd (retry_Delete_loop base n key i err s) = run base (replicate j (OpDelete key)) s"
proof (induction "nat (n - i)" arbitrary: i err s)
  case 0
  then have "\<not> i < n" by simp
  then have "snd (retry_Delete_loop base n key i err s) = run base (replicate 0 (OpDelete key)) s"
    by (simp add: retry_Delete_loop.simps [of base n key i] run_Nil)
  then show ?case by (rule exI)
next
  case (Suc m)
  then have lt: "i < n" and m: "m = nat (n - (i + 1))" by simp_all
  obtain e1 s1 where g: "Delete base key s = (e1, s1)" by (metis surj_pair)
  show ?case
  proof (cases "e1 = None")
    case True
    with lt g
    have "snd (retry_Delete_loop base n key i err s) = run base (replicate 1 (OpDelete key)) s"
      by (simp add: retry_Delete_loop.simps [of base n key i] run_Cons run_Nil)
    then show ?thesis by (rule exI)
  next
    case False
    from Suc(1) [OF m, of e1 s1] obtain j where
      "snd (retry_Delete_loop base n key (i + 1) e1 s1) = run base (replicate j (OpDelete key)) s1"
      by blast
    with lt g
    have "snd (retry_Delete_loop base n key i err s)
            = run base (replicate (Suc j) (OpDelete key)) s"
      by (simp add: retry_Delete_loop.simps [of base n key i] run_Cons False)
    then show ?thesis by (rule exI)
  qed
qed

text \<open>The \<^verbatim>\<open>Set\<close> loop: the state it ends in and, when it reports success after at least
  one attempt, the successful last attempt.\<close>

lemma retry_Set_loop_state:
  "\<exists>j. snd (retry_Set_loop base n key data i err s) = run base (replicate j (OpSet key data)) s \<and>
       (i < n \<and> fst (retry_Set_loop base n key data i err s) = None \<longrightarrow>
          (\<exists>j'. Set base key data (run base (replicate j' (OpSet key data)) s)
                  = (None, snd (retry_Set_loop base n key data i err s))))"
proof (induction "nat (n - i)" arbitrary: i err s)
  case 0
  then have "\<not> i < n" by simp
  then have "snd (retry_Set_loop base n key data i err s)
                = run base (replicate 0 (OpSet key data)) s \<and>
       (i < n \<and> fst (retry_Set_loop base n key data i err s) = None \<longrightarrow>
          (\<exists>j'. Set base key data (run base (replicate j' (OpSet key data)) s)
                  = (None, snd (retry_Set_loop base n key data i err s))))"
    by (simp add: retry_Set_loop.simps [of base n key data i] run_Nil)
  then show ?case by (rule exI)
next
  case (Suc m)
  then have lt: "i < n" and m: "m = nat (n - (i + 1))" by simp_all
  obtain e1 s1 where g: "Set base key data s = (e1, s1)" by (metis surj_pair)
  show ?case
  proof (cases "e1 = None")
    case True
    with lt g have r: "retry_Set_loop base n key data i err s = (None, s1)"
      by (simp add: retry_Set_loop.simps [of base n key data i])
    have "Set base key data (run base (replicate 0 (OpSet key data)) s) = (None, s1)"
      using g True by (simp add: run_Nil)
    then have "\<exists>j'. Set base key data (run base (replicate j' (OpSet key data)) s) = (None, s1)"
      by (rule exI)
    then have "snd (retry_Set_loop base n key data i err s)
                = run base (replicate 1 (OpSet key data)) s \<and>
       (i < n \<and> fst (retry_Set_loop base n key data i err s) = None \<longrightarrow>
          (\<exists>j'. Set base key data (run base (replicate j' (OpSet key data)) s)
                  = (None, snd (retry_Set_loop base n key data i err s))))"
      using g by (simp add: r run_Cons run_Nil)
    then show ?thesis by (rule exI)
  next
    case False
    from lt g have r: "retry_Set_loop base n key data i err s
                        = retry_Set_loop base n key data (i + 1) e1 s1"
      by (simp add: retry_Set_loop.simps [of base n key data i] False)
    have s1: "s1 = step base s (OpSet key data)" using g by simp
    from Suc(1) [OF m, of e1 s1] obtain j where j:
      "snd (retry_Set_loop base n key data (i + 1) e1 s1)
         = run base (replicate j (OpSet key data)) s1"
      "i + 1 < n \<and> fst (retry_Set_loop base n key data (i + 1) e1 s1) = None \<longrightarrow>
          (\<exists>j'. Set base key data (run base (replicate j' (OpSet key data)) s1)
                  = (None, snd (retry_Set_loop base n key data (i + 1) e1 s1)))"
      by blast
    have a: "snd (retry_Set_loop base n key data i err s)
                = run base (replicate (Suc j) (OpSet key data)) s"
      using j(1) by (simp add: r s1 run_Cons)
    have b: "\<exists>j'. Set base key data (run base (replicate j' (OpSet key data)) s)
                  = (None, snd (retry_Set_loop base n key data i err s))"
      if ok: "fst (retry_Set_loop base n key data i err s) = None"
    proof -
      have "i + 1 < n"
      proof (rule ccontr)
        assume "\<not> i + 1 < n"
        then have "retry_Set_loop base n key data (i + 1) e1 s1 = (e1, s1)"
          by (simp add: retry_Set_loop.simps [of base n key data "i + 1"])
        with ok r False show False by simp
      qed
      with j(2) ok r obtain j' where
        "Set base key data (run base (replicate j' (OpSet key data)) s1)
           = (None, snd (retry_Set_loop base n key data i err s))"
        by auto
      then have "Set base key data (run base (replicate (Suc j') (OpSet key data)) s)
           = (None, snd (retry_Set_loop base n key data i err s))"
        by (simp add: s1 run_Cons)
      then show ?thesis by (rule exI)
    qed
    show ?thesis
    proof (rule exI [of _ "Suc j"], intro conjI impI)
      show "snd (retry_Set_loop base n key data i err s)
              = run base (replicate (Suc j) (OpSet key data)) s"
        by (rule a)
      assume "i < n \<and> fst (retry_Set_loop base n key data i err s) = None"
      then show "\<exists>j'. Set base key data (run base (replicate j' (OpSet key data)) s)
                  = (None, snd (retry_Set_loop base n key data i err s))"
        using b by simp
    qed
  qed
qed

lemma run_induct:
  assumes "P s0" and "\<And>s x. P s \<Longrightarrow> P (step st s x)"
  shows "P (run st ops s0)"
proof (induction ops rule: rev_induct)
  case Nil
  from assms(1) show ?case by (simp add: run_Nil)
next
  case (snoc x ops)
  from assms(2) [OF snoc] show ?case by (simp add: run_append run_Cons run_Nil)
qed

lemma retry_step_reachable:
  assumes "reachable (base, s0) s"
  shows "reachable (base, s0) (step (retry base n) s x)"
proof (cases x)
  case (OpGet key)
  from retry_Get_loop_state [of base n key 0 "(nil, None)" s] obtain j where
    "snd (retry_Get_loop base n key 0 (nil, None) s) = run base (replicate j (OpGet key)) s" ..
  with reachable_run [OF assms] show ?thesis
    by (simp add: OpGet retry_def retry_Get_def)
next
  case (OpSet key data)
  from retry_Set_loop_state [of base n key data 0 None s] obtain j where
    "snd (retry_Set_loop base n key data 0 None s) = run base (replicate j (OpSet key data)) s"
    by (elim exE conjE)
  with reachable_run [OF assms] show ?thesis
    by (simp add: OpSet retry_def retry_Set_def)
next
  case (OpDelete key)
  from retry_Delete_loop_state [of base n key 0 None s] obtain j where
    "snd (retry_Delete_loop base n key 0 None s) = run base (replicate j (OpDelete key)) s" ..
  with reachable_run [OF assms] show ?thesis
    by (simp add: OpDelete retry_def retry_Delete_def)
qed

lemma retry_reachable:
  assumes "reachable (retry base n, s0) s"
  shows "reachable (base, s0) s"
proof -
  from assms obtain ops where s: "s = run (retry base n) ops s0"
    by (auto simp add: reachable_def)
  have "reachable (base, s0) (run (retry base n) ops s0)"
    by (rule run_induct) (simp_all add: reachable_init [of "(base, s0)", simplified]
        retry_step_reachable)
  with s show ?thesis by simp
qed

lemma set_get_law_memory: "set_get_law NewMemory"
  by (simp add: set_get_law_def NewMemory_def memory_def memory_Set_def memory_Get_def dup_id)

lemma set_get_law_retry:
  assumes "set_get_law b" and "NewRetry b n = Inr b'"
  shows "set_get_law b'"
proof -
  obtain base s0 where b: "b = (base, s0)" by (cases b)
  from assms(2) have n: "0 < n" and b': "b' = (retry base n, s0)"
    by (simp_all add: NewRetry_def b split: if_splits)
  have "fst (Get (retry base n) key s1) = (data, None)"
    if r: "reachable (retry base n, s0) s" and ok: "Set (retry base n) key data s = (None, s1)"
    for s key data s1
  proof -
    from ok have loop: "retry_Set_loop base n key data 0 None s = (None, s1)"
      by (simp add: retry_def retry_Set_def)
    from retry_Set_loop_state [of base n key data 0 None s] obtain j0 where
      "0 < n \<and> fst (retry_Set_loop base n key data 0 None s) = None \<longrightarrow>
          (\<exists>j'. Set base key data (run base (replicate j' (OpSet key data)) s)
                  = (None, snd (retry_Set_loop base n key data 0 None s)))"
      by (elim exE conjE)
    with n loop obtain j where
      last: "Set base key data (run base (replicate j (OpSet key data)) s) = (None, s1)"
      by (simp only: fst_conv snd_conv simp_thms) (erule exE)
    from r have "reachable (base, s0) s" by (rule retry_reachable)
    then have "reachable (base, s0) (run base (replicate j (OpSet key data)) s)"
      by (rule reachable_run)
    with assms(1) last have "fst (Get base key s1) = (data, None)"
      unfolding set_get_law_def b fst_conv by blast
    then obtain s2 where "Get base key s1 = ((data, None), s2)"
      by (metis prod.collapse)
    with n show ?thesis
      by (simp add: retry_def retry_Get_def retry_Get_loop.simps [of base n key 0])
  qed
  then show ?thesis unfolding set_get_law_def b' by auto
qed

lemma capacity_lru_Get: "capacity (snd (lru_Get c key)) = capacity c"
  by (simp add: lru_Get_def split: option.splits)

lemma cache_Get_capacity: "capacity (snd (snd (cache_Get base key (s, c)))) = capacity c"
proof (cases "map_of (entries c) key")
  case None
  then show ?thesis
    by (simp add: cache_Get_def lru_Get_miss capacity_Add split: prod.splits)
next
  case (Some val)
  then show ?thesis
    by (simp add: cache_Get_def lru_Get_hit)
qed

lemma cache_Set_capacity: "capacity (snd (snd (cache_Set base key data (s, c)))) = capacity c"
  by (simp add: cache_Set_def Let_def capacity_Add capacity_Remove split: prod.splits)

lemma cache_Delete_capacity: "capacity (snd (snd (cache_Delete base key (s, c)))) = capacity c"
  by (simp add: cache_Delete_def Let_def capacity_Remove split: prod.splits)

lemma cache_step_capacity:
  "capacity (snd (step (cache base) st x)) = capacity (snd st)"
proof (cases st)
  case (Pair s c)
  show ?thesis
    by (cases x)
      (simp_all add: Pair cache_def cache_Get_capacity cache_Set_capacity cache_Delete_capacity)
qed

lemma cache_reachable_capacity:
  assumes "reachable (cache base, (s0, c0)) st"
  shows "capacity (snd st) = capacity c0"
proof -
  from assms obtain ops where s: "st = run (cache base) ops (s0, c0)"
    by (auto simp add: reachable_def)
  have "capacity (snd (run (cache base) ops (s0, c0))) = capacity c0"
    by (rule run_induct) (simp_all add: cache_step_capacity)
  with s show ?thesis by simp
qed

lemma set_get_law_cache:
  assumes "NewCache b sz = Inr b'"
  shows "set_get_law b'"
proof -
  obtain base s0 where b: "b = (base, s0)" by (cases b)
  from assms have sz: "0 < sz"
    and b': "b' = (cache base, (s0, \<lparr>capacity = sz, entries = []\<rparr>))"
    by (simp_all add: NewCache_def lru_New_def b split: if_splits)
  have "fst (Get (cache base) key st1) = (data, None)"
    if r: "reachable (cache base, (s0, \<lparr>capacity = sz, entries = []\<rparr>)) st"
      and ok: "Set (cache base) key data st = (None, st1)"
    for st key data st1
  proof -
    obtain s c where st: "st = (s, c)" by (cases st)
    from cache_reachable_capacity [OF r] sz have cap: "0 < capacity c" by (simp add: st)
    from ok obtain s1 where st1: "st1 = (s1, lru_Add (lru_Remove c key) key (dup data))"
      by (auto simp add: cache_def cache_Set_def Let_def st split: prod.splits if_splits)
    from cap have "0 < capacity (lru_Remove c key)" by (simp add: lru_Remove_def)
    then have "map_of (entries (lru_Add (lru_Remove c key) key (dup data))) key = Some data"
      by (simp add: lru_Add_held dup_id)
    then show ?thesis
      by (simp add: st1 cache_def cache_Get_def lru_Get_hit dup_id)
  qed
  then show ?thesis unfolding set_get_law_def b' by auto
qed

text \<open>
  Claim C1. After a \<^verbatim>\<open>Set\<close> of a key and a value that returned no error, the \<^verbatim>\<open>Get\<close> of the
  key made next on the same store returns that value, byte for byte, and no error. This holds
  for the store in memory, and whenever it holds for a store it holds for the retrying store
  and for the caching store that the constructors build over it: so it holds for every
  composition of the decorators over the store in memory.
\<close>

theorem set_then_get:
  "set_get_law NewMemory \<and>
   (\<forall>b n b'. set_get_law b \<and> NewRetry b n = Inr b' \<longrightarrow> set_get_law b') \<and>
   (\<forall>b sz b'. set_get_law b \<and> NewCache b sz = Inr b' \<longrightarrow> set_get_law b')"
proof (intro conjI allI impI)
  show "set_get_law NewMemory" by (rule set_get_law_memory)
next
  fix b :: "'a store" and n b'
  assume "set_get_law b \<and> NewRetry b n = Inr b'"
  then have "set_get_law b" and "NewRetry b n = Inr b'" by simp_all
  then show "set_get_law b'" by (rule set_get_law_retry)
next
  fix b :: "'b store" and sz b'
  assume "set_get_law b \<and> NewCache b sz = Inr b'"
  then have "NewCache b sz = Inr b'" by simp
  then show "set_get_law b'" by (rule set_get_law_cache)
qed

theorem set_then_get_witness:
  "NewRetry NewMemory 2 = Inr (retry memory 2, Map.empty) \<and>
   NewCache (retry memory 2, Map.empty) 1
     = Inr (cache (retry memory 2), (Map.empty, (\<lparr>capacity = 1, entries = []\<rparr> :: bytes lru))) \<and>
   set_get_law NewMemory \<and>
   set_get_law (retry memory 2, Map.empty) \<and>
   set_get_law (cache (retry memory 2), (Map.empty, (\<lparr>capacity = 1, entries = []\<rparr> :: bytes lru))) \<and>
   Set (cache (retry memory 2)) ''k'' (Bytes [1, 2]) (Map.empty, (\<lparr>capacity = 1, entries = []\<rparr> :: bytes lru))
     = (None, ([''k'' \<mapsto> Bytes [1, 2]], \<lparr>capacity = 1, entries = [(''k'', Bytes [1, 2])]\<rparr>)) \<and>
   fst (Get (cache (retry memory 2)) ''k''
         ([''k'' \<mapsto> Bytes [1, 2]], \<lparr>capacity = 1, entries = [(''k'', Bytes [1, 2])]\<rparr>))
     = (Bytes [1, 2], None)"
  (is "?r \<and> ?c \<and> ?l0 \<and> ?l1 \<and> ?l2 \<and> ?set \<and> ?get")
proof -
  have r: ?r by (simp add: NewRetry_def NewMemory_def)
  have c: ?c by (simp add: NewCache_def lru_New_def)
  from set_then_get have l0: ?l0 by (rule conjunct1)
  from set_then_get l0 r have l1: ?l1 by blast
  from set_then_get l1 c have l2: ?l2 by blast
  have s: ?set
    by (simp add: cache_def cache_Set_def retry_def retry_Set_def retry_Set_loop.simps
        memory_def memory_Set_def lru_Remove_def lru_Add_def dup_id)
  have g: ?get
    by (simp add: cache_def cache_Get_def lru_Get_def dup_id)
  from r c l0 l1 l2 s g show ?thesis by blast
qed

section \<open>The invariant of the cache\<close>

text \<open>
  The eviction property above is stated for a cache that satisfies \<open>lru_inv\<close>, and reading
  back from the cache for a cache of positive capacity. Every cache that \<^verbatim>\<open>NewCache\<close> builds
  is such a cache, in every state its store can be in.
\<close>

lemma lru_inv_New: "lru_New sz = Inr c \<Longrightarrow> lru_inv c"
  by (auto simp add: lru_New_def lru_inv_def split: if_splits)

lemma lru_inv_Remove: "lru_inv c \<Longrightarrow> lru_inv (lru_Remove c k)"
proof -
  assume inv: "lru_inv c"
  have "int (length (filter (\<lambda>e. fst e \<noteq> k) (entries c))) \<le> int (length (entries c))"
    by simp
  with inv have "int (length (filter (\<lambda>e. fst e \<noteq> k) (entries c))) \<le> capacity c"
    unfolding lru_inv_def by linarith
  with inv show ?thesis
    by (simp add: lru_inv_def lru_Remove_def distinct_map_filter)
qed

lemma lru_inv_touch:
  assumes inv: "lru_inv c" and held: "map_of (entries c) k = Some old"
  shows "lru_inv (c\<lparr>entries := (k, v) # filter (\<lambda>e. fst e \<noteq> k) (entries c)\<rparr>)"
proof -
  from held have "(k, old) \<in> set (entries c)" by (rule map_of_SomeD)
  then have "length (filter (\<lambda>e. fst e \<noteq> k) (entries c)) < length (entries c)"
    by (intro length_filter_less [of "(k, old)"]) simp_all
  with inv have "int (length ((k, v) # filter (\<lambda>e. fst e \<noteq> k) (entries c))) \<le> capacity c"
    unfolding lru_inv_def by simp
  moreover have "k \<notin> fst ` set (filter (\<lambda>e. fst e \<noteq> k) (entries c))" by auto
  ultimately show ?thesis
    using inv by (simp add: lru_inv_def distinct_map_filter)
qed

lemma lru_inv_Get: "lru_inv c \<Longrightarrow> lru_inv (snd (lru_Get c k))"
  by (cases "map_of (entries c) k") (simp_all add: lru_Get_def lru_inv_touch)

lemma lru_inv_Add:
  assumes "lru_inv c"
  shows "lru_inv (lru_Add c k v)"
proof (cases "map_of (entries c) k")
  case (Some old)
  with lru_inv_touch [OF assms Some, of v] show ?thesis by (simp add: lru_Add_def)
next
  case None
  then have notin: "k \<notin> set (cached_keys c)" by (simp add: map_of_None_cached)
  from assms have len: "int (length (cached_keys c)) \<le> capacity c"
    by (simp add: lru_inv_def cached_keys_def)
  have k: "cached_keys (lru_Add c k v) = take (nat (capacity c)) (k # cached_keys c)"
    by (rule cached_keys_Add_absent [OF notin len])
  from assms notin have "distinct (k # cached_keys c)"
    by (simp add: lru_inv_def cached_keys_def)
  then have "distinct (cached_keys (lru_Add c k v))" unfolding k by (rule distinct_take)
  moreover have "length (cached_keys (lru_Add c k v)) \<le> nat (capacity c)"
    unfolding k by simp
  with assms have "int (length (cached_keys (lru_Add c k v))) \<le> capacity c"
    unfolding lru_inv_def by linarith
  ultimately show ?thesis
    using assms by (simp add: lru_inv_def cached_keys_def capacity_Add)
qed

lemma lru_inv_step:
  assumes "lru_inv (snd st)"
  shows "lru_inv (snd (step (cache base) st x))"
proof -
  obtain s c where st: "st = (s, c)" by (cases st)
  with assms have inv: "lru_inv c" by simp
  show ?thesis
  proof (cases x)
    case (OpGet key)
    show ?thesis
    proof (cases "map_of (entries c) key")
      case None
      with inv show ?thesis
        by (simp add: OpGet st cache_def cache_Get_def lru_Get_miss lru_inv_Add
            split: prod.splits)
    next
      case (Some val)
      with lru_inv_Get [OF inv, of key] show ?thesis
        by (simp add: OpGet st cache_def cache_Get_def lru_Get_hit)
    qed
  next
    case (OpSet key data)
    from inv show ?thesis
      by (simp add: OpSet st cache_def cache_Set_def Let_def lru_inv_Add lru_inv_Remove
          split: prod.splits)
  next
    case (OpDelete key)
    from inv show ?thesis
      by (simp add: OpDelete st cache_def cache_Delete_def Let_def lru_inv_Remove
          split: prod.splits)
  qed
qed

lemma lru_inv_reachable:
  assumes "NewCache b sz = Inr b'" and "reachable b' st"
  shows "lru_inv (snd st)"
proof -
  obtain base s0 where b: "b = (base, s0)" by (cases b)
  from assms(1) obtain c0 where c0: "lru_New sz = Inr c0" and b': "b' = (cache base, (s0, c0))"
    by (auto simp add: NewCache_def b split: sum.splits)
  from assms(2) obtain ops where st: "st = run (cache base) ops (s0, c0)"
    by (auto simp add: reachable_def b')
  have "lru_inv (snd (run (cache base) ops (s0, c0)))"
    by (rule run_induct) (simp_all add: lru_inv_New [OF c0] lru_inv_step)
  with st show ?thesis by simp
qed

section \<open>Keys that were never set or were deleted\<close>

lemma history_append:
  "history st (ops @ ops') s = history st ops s @ history st ops' (run st ops s)"
  by (induction ops arbitrary: s) (simp_all add: run_Nil run_Cons)

lemma writes_append: "writes key (h @ h') = writes key h @ writes key h'"
  by (simp add: writes_def)

lemma writes_Nil: "writes key [] = []"
  by (simp add: writes_def)

lemma unset_Nil: "unset key []"
  by (simp add: unset_def writes_def)

lemma unset_cong: "writes key h = writes key h' \<Longrightarrow> unset key h = unset key h'"
  by (simp add: unset_def)

lemma unset_snoc:
  "unset key (h @ [(x, err)]) \<longleftrightarrow>
     (if op_key x = key \<and> is_write x \<and> err = None then is_Delete x else unset key h)"
  by (simp add: unset_def writes_def)

lemma memory_step:
  "step memory m (OpGet k) = m"
  "step memory m (OpSet k v) = m(k \<mapsto> v)"
  "step memory m (OpDelete k) = m(k := None)"
  by (simp_all add: memory_def memory_Get_def memory_Set_def memory_Delete_def dup_id
      split: option.splits)

lemma memory_outcome:
  "outcome memory m (OpSet k v) = None"
  "outcome memory m (OpDelete k) = None"
  by (simp_all add: memory_def memory_Set_def memory_Delete_def)

lemma memory_unset:
  "unset key (history memory ops Map.empty) \<longleftrightarrow> run memory ops Map.empty key = None"
proof (induction ops rule: rev_induct)
  case Nil
  show ?case by (simp add: unset_Nil run_Nil)
next
  case (snoc x ops)
  show ?case
    by (cases x)
      (simp_all add: history_append unset_snoc run_append run_Cons run_Nil snoc
        memory_step memory_outcome del: step.simps outcome.simps)
qed

lemma not_found_law_memory: "not_found_law NewMemory"
  by (simp add: not_found_law_def NewMemory_def memory_unset)
    (simp add: memory_def memory_Get_def)

lemma retry_Set_loop_hist:
  assumes "i < n"
  shows "\<exists>j. snd (retry_Set_loop base n key data i err s) = run base (replicate j (OpSet key data)) s \<and>
           (\<forall>k. writes k (history base (replicate j (OpSet key data)) s)
                  = writes k [(OpSet key data, fst (retry_Set_loop base n key data i err s))])"
  using assms
proof (induction "nat (n - i)" arbitrary: i err s)
  case 0
  then show ?case by simp
next
  case (Suc m)
  obtain e1 s1 where g: "Set base key data s = (e1, s1)" by (metis surj_pair)
  then have o: "outcome base s (OpSet key data) = e1" and st: "step base s (OpSet key data) = s1"
    by simp_all
  show ?case
  proof (cases "e1 = None")
    case True
    with Suc.prems g have r: "retry_Set_loop base n key data i err s = (None, s1)"
      by (simp add: retry_Set_loop.simps [of base n key data i])
    show ?thesis
      by (rule exI [of _ 1]) (simp add: r run_Cons run_Nil o st True del: outcome.simps step.simps)
  next
    case False
    from Suc.prems g have r: "retry_Set_loop base n key data i err s
                        = retry_Set_loop base n key data (i + 1) e1 s1"
      by (simp add: retry_Set_loop.simps [of base n key data i] False)
    from False have w: "writes k [(OpSet key data, e1)] = []" for k
      by (simp add: writes_def)
    show ?thesis
    proof (cases "i + 1 < n")
      case True
      moreover from Suc(2) have "m = nat (n - (i + 1))" by simp
      ultimately obtain j where j:
        "snd (retry_Set_loop base n key data (i + 1) e1 s1) = run base (replicate j (OpSet key data)) s1"
        "\<forall>k. writes k (history base (replicate j (OpSet key data)) s1)
                  = writes k [(OpSet key data, fst (retry_Set_loop base n key data (i + 1) e1 s1))]"
        using Suc(1) [of "i + 1" e1 s1] by blast
      have "writes k (history base (replicate (Suc j) (OpSet key data)) s)
              = writes k [(OpSet key data, fst (retry_Set_loop base n key data i err s))]" for k
        using j(2) w [of k] writes_append [of k "[(OpSet key data, e1)]"]
        by (simp add: r o st del: outcome.simps step.simps)
      with j(1) show ?thesis
        by (intro exI [of _ "Suc j"]) (simp add: r run_Cons st del: step.simps)
    next
      case False
      then have r': "retry_Set_loop base n key data (i + 1) e1 s1 = (e1, s1)"
        by (simp add: retry_Set_loop.simps [of base n key data "i + 1"])
      show ?thesis
        by (rule exI [of _ 1])
          (simp add: r r' run_Cons run_Nil o st del: outcome.simps step.simps)
    qed
  qed
qed


lemma retry_Delete_loop_hist:
  assumes "i < n"
  shows "\<exists>j. snd (retry_Delete_loop base n key i err s) = run base (replicate j (OpDelete key)) s \<and>
           (\<forall>k. writes k (history base (replicate j (OpDelete key)) s)
                  = writes k [(OpDelete key, fst (retry_Delete_loop base n key i err s))])"
  using assms
proof (induction "nat (n - i)" arbitrary: i err s)
  case 0
  then show ?case by simp
next
  case (Suc m)
  obtain e1 s1 where g: "Delete base key s = (e1, s1)" by (metis surj_pair)
  then have o: "outcome base s (OpDelete key) = e1" and st: "step base s (OpDelete key) = s1"
    by simp_all
  show ?case
  proof (cases "e1 = None")
    case True
    with Suc.prems g have r: "retry_Delete_loop base n key i err s = (None, s1)"
      by (simp add: retry_Delete_loop.simps [of base n key i])
    show ?thesis
      by (rule exI [of _ 1]) (simp add: r run_Cons run_Nil o st True del: outcome.simps step.simps)
  next
    case False
    from Suc.prems g have r: "retry_Delete_loop base n key i err s
                        = retry_Delete_loop base n key (i + 1) e1 s1"
      by (simp add: retry_Delete_loop.simps [of base n key i] False)
    from False have w: "writes k [(OpDelete key, e1)] = []" for k
      by (simp add: writes_def)
    show ?thesis
    proof (cases "i + 1 < n")
      case True
      moreover from Suc(2) have "m = nat (n - (i + 1))" by simp
      ultimately obtain j where j:
        "snd (retry_Delete_loop base n key (i + 1) e1 s1) = run base (replicate j (OpDelete key)) s1"
        "\<forall>k. writes k (history base (replicate j (OpDelete key)) s1)
                  = writes k [(OpDelete key, fst (retry_Delete_loop base n key (i + 1) e1 s1))]"
        using Suc(1) [of "i + 1" e1 s1] by blast
      have "writes k (history base (replicate (Suc j) (OpDelete key)) s)
              = writes k [(OpDelete key, fst (retry_Delete_loop base n key i err s))]" for k
        using j(2) w [of k] writes_append [of k "[(OpDelete key, e1)]"]
        by (simp add: r o st del: outcome.simps step.simps)
      with j(1) show ?thesis
        by (intro exI [of _ "Suc j"]) (simp add: r run_Cons st del: step.simps)
    next
      case False
      then have r': "retry_Delete_loop base n key (i + 1) e1 s1 = (e1, s1)"
        by (simp add: retry_Delete_loop.simps [of base n key "i + 1"])
      show ?thesis
        by (rule exI [of _ 1])
          (simp add: r r' run_Cons run_Nil o st del: outcome.simps step.simps)
    qed
  qed
qed

lemma writes_reads:
  "\<forall>x\<in>set ops. \<not> is_write x \<Longrightarrow> writes k (history st ops s) = []"
  by (induction ops arbitrary: s) (simp_all add: writes_def)

lemma retry_step_sim:
  assumes "0 < n"
  shows "\<exists>ops1. step (retry base n) s x = run base ops1 s \<and>
           (\<forall>k. writes k (history base ops1 s) = writes k [(x, outcome (retry base n) s x)])"
proof (cases x)
  case (OpGet key)
  from retry_Get_loop_state [of base n key 0 "(nil, None)" s] obtain j where
    j: "snd (retry_Get_loop base n key 0 (nil, None) s) = run base (replicate j (OpGet key)) s" ..
  have "writes k (history base (replicate j (OpGet key)) s) = []" for k
    by (rule writes_reads) simp
  with j show ?thesis
    by (intro exI [of _ "replicate j (OpGet key)"])
      (simp add: OpGet retry_def retry_Get_def writes_def)
next
  case (OpSet key data)
  from retry_Set_loop_hist [OF assms, of base key data None s] obtain j where
    "snd (retry_Set_loop base n key data 0 None s) = run base (replicate j (OpSet key data)) s"
    "\<forall>k. writes k (history base (replicate j (OpSet key data)) s)
           = writes k [(OpSet key data, fst (retry_Set_loop base n key data 0 None s))]"
    by blast
  then show ?thesis
    by (intro exI [of _ "replicate j (OpSet key data)"])
      (simp add: OpSet retry_def retry_Set_def)
next
  case (OpDelete key)
  from retry_Delete_loop_hist [OF assms, of base key None s] obtain j where
    "snd (retry_Delete_loop base n key 0 None s) = run base (replicate j (OpDelete key)) s"
    "\<forall>k. writes k (history base (replicate j (OpDelete key)) s)
           = writes k [(OpDelete key, fst (retry_Delete_loop base n key 0 None s))]"
    by blast
  then show ?thesis
    by (intro exI [of _ "replicate j (OpDelete key)"])
      (simp add: OpDelete retry_def retry_Delete_def)
qed

lemma retry_sim:
  assumes "0 < n"
  shows "\<exists>ops'. run (retry base n) ops s0 = run base ops' s0 \<and>
           (\<forall>k. writes k (history base ops' s0) = writes k (history (retry base n) ops s0))"
proof (induction ops rule: rev_induct)
  case Nil
  show ?case by (rule exI [of _ "[]"]) (simp add: run_Nil)
next
  case (snoc x ops)
  then obtain ops' where ih:
    "run (retry base n) ops s0 = run base ops' s0"
    "\<forall>k. writes k (history base ops' s0) = writes k (history (retry base n) ops s0)"
    by blast
  from retry_step_sim [OF assms, of base "run base ops' s0" x] obtain ops1 where st:
    "step (retry base n) (run base ops' s0) x = run base ops1 (run base ops' s0)"
    "\<forall>k. writes k (history base ops1 (run base ops' s0))
           = writes k [(x, outcome (retry base n) (run base ops' s0) x)]"
    by blast
  show ?case
    by (rule exI [of _ "ops' @ ops1"])
      (simp add: run_append run_Cons run_Nil history_append writes_append ih st
        del: step.simps outcome.simps)
qed

lemma not_found_law_retry:
  assumes "not_found_law b" and "NewRetry b n = Inr b'"
  shows "not_found_law b'"
proof -
  obtain base s0 where b: "b = (base, s0)" by (cases b)
  from assms(2) have n: "0 < n" and b': "b' = (retry base n, s0)"
    by (simp_all add: NewRetry_def b split: if_splits)
  have "snd (fst (Get (retry base n) key (run (retry base n) ops s0))) = Some ErrObjectNotFound"
    if u: "unset key (history (retry base n) ops s0)" for ops key
  proof -
    from retry_sim [OF n, of base ops s0] obtain ops' where sim:
      "run (retry base n) ops s0 = run base ops' s0"
      "\<forall>k. writes k (history base ops' s0) = writes k (history (retry base n) ops s0)"
      by blast
    from sim(2) have "unset key (history base ops' s0) = unset key (history (retry base n) ops s0)"
      by (intro unset_cong) simp
    with u assms(1) have "snd (fst (Get base key (run base ops' s0))) = Some ErrObjectNotFound"
      by (simp add: not_found_law_def b)
    then obtain d s1 where "Get base key (run base ops' s0) = ((d, Some ErrObjectNotFound), s1)"
      by (metis prod.collapse)
    with n have "Get (retry base n) key (run base ops' s0)
                   = ((d, Some ErrObjectNotFound), s1)"
      by (simp add: retry_def retry_Get_def retry_Get_loop.simps [of base n key 0])
    then show ?thesis by (simp add: sim(1))
  qed
  then show ?thesis by (simp add: not_found_law_def b')
qed

lemma cached_keys_Add_subset:
  "set (cached_keys (lru_Add c k v)) \<subseteq> insert k (set (cached_keys c))"
proof (cases "map_of (entries c) k")
  case None
  have "set (butlast ((k, v) # entries c)) \<subseteq> set ((k, v) # entries c)"
    by (rule subsetI) (rule in_set_butlastD)
  with None show ?thesis
    by (auto simp add: lru_Add_def cached_keys_def Let_def simp del: butlast.simps)
next
  case (Some old)
  then show ?thesis
    by (auto simp add: lru_Add_def cached_keys_def)
qed

lemma cached_keys_Get_hit:
  "set (cached_keys (snd (lru_Get c k))) \<subseteq> set (cached_keys c)"
proof (cases "map_of (entries c) k")
  case None
  then show ?thesis by (simp add: lru_Get_def)
next
  case (Some val)
  then have "(k, val) \<in> set (entries c)" by (rule map_of_SomeD)
  then have "k \<in> fst ` set (entries c)" by force
  with Some show ?thesis by (auto simp add: lru_Get_def cached_keys_def)
qed

lemma cache_step_sim:
  assumes law: "not_found_law (base, s0)"
    and s: "s = run base ops' s0"
    and w: "\<forall>k. writes k (history base ops' s0) = writes k h"
    and inv: "\<forall>k\<in>set (cached_keys c). \<not> unset k h"
  shows "\<exists>ops1. fst (step (cache base) (s, c) x) = run base ops1 s \<and>
           (\<forall>k. writes k (history base ops1 s) = writes k [(x, outcome (cache base) (s, c) x)]) \<and>
           (\<forall>k\<in>set (cached_keys (snd (step (cache base) (s, c) x))).
              \<not> unset k (h @ [(x, outcome (cache base) (s, c) x)]))"
proof (cases x)
  case (OpGet key)
  show ?thesis
  proof (cases "map_of (entries c) key")
    case (Some val)
    then have g: "Get (cache base) key (s, c) = ((dup val, None), (s, snd (lru_Get c key)))"
      by (simp add: cache_def cache_Get_def lru_Get_hit)
    have "\<forall>k\<in>set (cached_keys (snd (lru_Get c key))). \<not> unset k (h @ [(OpGet key, None)])"
      using inv cached_keys_Get_hit [of c key] by (auto simp add: unset_snoc)
    then show ?thesis
      by (intro exI [of _ "[]"]) (simp add: OpGet g run_Nil writes_def)
  next
    case None
    obtain d e s1 where b: "Get base key s = ((d, e), s1)"
      by (cases "Get base key s") auto
    show ?thesis
    proof (cases e)
      case (Some err)
      with None b have g: "Get (cache base) key (s, c) = ((nil, Some err), (s1, c))"
        by (simp add: cache_def cache_Get_def lru_Get_miss)
      from inv have "\<forall>k\<in>set (cached_keys c). \<not> unset k (h @ [(OpGet key, Some err)])"
        by (simp add: unset_snoc)
      then show ?thesis
        by (intro exI [of _ "[OpGet key]"]) (simp add: OpGet g b run_Cons run_Nil writes_def)
    next
      case e: None
      with None b have g: "Get (cache base) key (s, c)
                             = ((d, None), (s1, lru_Add c key (dup d)))"
        by (simp add: cache_def cache_Get_def lru_Get_miss)
      have "\<not> unset key (history base ops' s0)"
      proof
        assume "unset key (history base ops' s0)"
        with law have "snd (fst (Get base key (run base ops' s0))) = Some ErrObjectNotFound"
          by (simp add: not_found_law_def)
        with b e s show False by simp
      qed
      moreover have "unset key (history base ops' s0) = unset key h"
        using w by (intro unset_cong) simp
      ultimately have "\<not> unset key h" by simp
      with inv have "\<forall>k\<in>insert key (set (cached_keys c)). \<not> unset k (h @ [(OpGet key, None)])"
        by (simp add: unset_snoc)
      with cached_keys_Add_subset [of c key "dup d"]
      have "\<forall>k\<in>set (cached_keys (lru_Add c key (dup d))).
              \<not> unset k (h @ [(OpGet key, None)])"
        by blast
      then show ?thesis
        by (intro exI [of _ "[OpGet key]"]) (simp add: OpGet g b run_Cons run_Nil writes_def)
    qed
  qed
next
  case (OpSet key data)
  obtain e s1 where b: "Set base key data s = (e, s1)" by (metis surj_pair)
  show ?thesis
  proof (cases e)
    case (Some err)
    with b have g: "Set (cache base) key data (s, c) = (Some err, (s1, lru_Remove c key))"
      by (simp add: cache_def cache_Set_def)
    from inv have "\<forall>k\<in>set (cached_keys (lru_Remove c key)).
                     \<not> unset k (h @ [(OpSet key data, Some err)])"
      by (simp add: unset_snoc cached_keys_Remove)
    then show ?thesis
      by (intro exI [of _ "[OpSet key data]"])
        (simp add: OpSet g b Some run_Cons run_Nil)
  next
    case None
    with b have g: "Set (cache base) key data (s, c)
                      = (None, (s1, lru_Add (lru_Remove c key) key (dup data)))"
      by (simp add: cache_def cache_Set_def)
    from inv have "\<forall>k\<in>insert key (set (cached_keys (lru_Remove c key))).
                     \<not> unset k (h @ [(OpSet key data, None)])"
      by (simp add: unset_snoc cached_keys_Remove)
    with cached_keys_Add_subset [of "lru_Remove c key" key "dup data"]
    have "\<forall>k\<in>set (cached_keys (lru_Add (lru_Remove c key) key (dup data))).
            \<not> unset k (h @ [(OpSet key data, None)])"
      by blast
    then show ?thesis
      by (intro exI [of _ "[OpSet key data]"])
        (simp add: OpSet g b None run_Cons run_Nil)
  qed
next
  case (OpDelete key)
  obtain e s1 where b: "Delete base key s = (e, s1)" by (metis surj_pair)
  then have g: "Delete (cache base) key (s, c) = (e, (s1, lru_Remove c key))"
    by (simp add: cache_def cache_Delete_def)
  from inv have "\<forall>k\<in>set (cached_keys (lru_Remove c key)).
                   \<not> unset k (h @ [(OpDelete key, e)])"
    by (simp add: unset_snoc cached_keys_Remove)
  then show ?thesis
    by (intro exI [of _ "[OpDelete key]"])
      (simp add: OpDelete g b run_Cons run_Nil)
qed

lemma cache_sim:
  assumes law: "not_found_law (base, s0)" and empty: "entries c0 = []"
  shows "\<exists>ops'. fst (run (cache base) ops (s0, c0)) = run base ops' s0 \<and>
           (\<forall>k. writes k (history base ops' s0) = writes k (history (cache base) ops (s0, c0))) \<and>
           (\<forall>k\<in>set (cached_keys (snd (run (cache base) ops (s0, c0)))).
              \<not> unset k (history (cache base) ops (s0, c0)))"
proof (induction ops rule: rev_induct)
  case Nil
  show ?case
    by (rule exI [of _ "[]"]) (simp add: run_Nil cached_keys_def empty)
next
  case (snoc x ops)
  obtain s c where st: "run (cache base) ops (s0, c0) = (s, c)" by (metis surj_pair)
  let ?h = "history (cache base) ops (s0, c0)"
  from snoc st obtain ops' where ih:
    "s = run base ops' s0"
    "\<forall>k. writes k (history base ops' s0) = writes k ?h"
    "\<forall>k\<in>set (cached_keys c). \<not> unset k ?h"
    by auto
  from cache_step_sim [OF law ih, of x] obtain ops1 where step:
    "fst (step (cache base) (s, c) x) = run base ops1 s"
    "\<forall>k. writes k (history base ops1 s) = writes k [(x, outcome (cache base) (s, c) x)]"
    "\<forall>k\<in>set (cached_keys (snd (step (cache base) (s, c) x))).
       \<not> unset k (?h @ [(x, outcome (cache base) (s, c) x)])"
    by blast
  show ?case
  proof (intro exI [of _ "ops' @ ops1"] conjI)
    show "fst (run (cache base) (ops @ [x]) (s0, c0)) = run base (ops' @ ops1) s0"
      using step(1) ih(1) by (simp add: run_append run_Cons run_Nil st del: step.simps)
    show "\<forall>k. writes k (history base (ops' @ ops1) s0)
               = writes k (history (cache base) (ops @ [x]) (s0, c0))"
      using step(2) ih(1,2)
      by (simp add: history_append writes_append st del: step.simps outcome.simps)
    show "\<forall>k\<in>set (cached_keys (snd (run (cache base) (ops @ [x]) (s0, c0)))).
             \<not> unset k (history (cache base) (ops @ [x]) (s0, c0))"
      using step(3)
      by (simp add: run_append run_Cons run_Nil history_append st
          del: step.simps outcome.simps)
  qed
qed

lemma not_found_law_cache:
  assumes "not_found_law b" and "NewCache b sz = Inr b'"
  shows "not_found_law b'"
proof -
  obtain base s0 where b: "b = (base, s0)" by (cases b)
  let ?c0 = "\<lparr>capacity = sz, entries = []\<rparr>"
  from assms(2) have b': "b' = (cache base, (s0, ?c0))"
    by (simp_all add: NewCache_def lru_New_def b split: if_splits)
  from assms(1) have law: "not_found_law (base, s0)" by (simp add: b)
  have "snd (fst (Get (cache base) key (run (cache base) ops (s0, ?c0)))) = Some ErrObjectNotFound"
    if u: "unset key (history (cache base) ops (s0, ?c0))" for ops key
  proof -
    obtain s c where st: "run (cache base) ops (s0, ?c0) = (s, c)" by (metis surj_pair)
    from cache_sim [OF law, of ?c0 ops] st obtain ops' where sim:
      "s = run base ops' s0"
      "\<forall>k. writes k (history base ops' s0) = writes k (history (cache base) ops (s0, ?c0))"
      "\<forall>k\<in>set (cached_keys c). \<not> unset k (history (cache base) ops (s0, ?c0))"
      by auto
    from sim(3) u have "key \<notin> set (cached_keys c)" by blast
    then have miss: "lru_Get c key = (None, c)"
      by (simp add: lru_Get_miss map_of_None_cached)
    from sim(2) have "unset key (history base ops' s0)
                        = unset key (history (cache base) ops (s0, ?c0))"
      by (intro unset_cong) simp
    with u law have "snd (fst (Get base key s)) = Some ErrObjectNotFound"
      by (simp add: not_found_law_def sim(1))
    then obtain d s1 where "Get base key s = ((d, Some ErrObjectNotFound), s1)"
      by (metis prod.collapse)
    then have "Get (cache base) key (s, c) = ((nil, Some ErrObjectNotFound), (s1, c))"
      by (simp add: cache_def cache_Get_def miss)
    then show ?thesis by (simp add: st)
  qed
  then show ?thesis by (simp add: not_found_law_def b')
qed

text \<open>
  Claim C2. \<^verbatim>\<open>Get\<close> of a key that was never set, or whose last successful \<^verbatim>\<open>Set\<close> or
  \<^verbatim>\<open>Delete\<close> was a \<^verbatim>\<open>Delete\<close>, returns the error \<^verbatim>\<open>ErrObjectNotFound\<close> and no other. This holds
  for the store in memory, and whenever it holds for a store it holds for the retrying store
  and for the caching store that the constructors build over it: so it holds for every
  composition of the decorators over the store in memory.
\<close>

theorem unset_key_not_found:
  "not_found_law NewMemory \<and>
   (\<forall>b n b'. not_found_law b \<and> NewRetry b n = Inr b' \<longrightarrow> not_found_law b') \<and>
   (\<forall>b sz b'. not_found_law b \<and> NewCache b sz = Inr b' \<longrightarrow> not_found_law b')"
proof (intro conjI allI impI)
  show "not_found_law NewMemory" by (rule not_found_law_memory)
next
  fix b :: "'a store" and n b'
  assume "not_found_law b \<and> NewRetry b n = Inr b'"
  then have "not_found_law b" and "NewRetry b n = Inr b'" by simp_all
  then show "not_found_law b'" by (rule not_found_law_retry)
next
  fix b :: "'b store" and sz b'
  assume "not_found_law b \<and> NewCache b sz = Inr b'"
  then have "not_found_law b" and "NewCache b sz = Inr b'" by simp_all
  then show "not_found_law b'" by (rule not_found_law_cache)
qed

theorem unset_key_not_found_witness:
  "NewRetry NewMemory 2 = Inr (retry memory 2, Map.empty) \<and>
   NewCache (retry memory 2, Map.empty) 1
     = Inr (cache (retry memory 2), (Map.empty, (\<lparr>capacity = 1, entries = []\<rparr> :: bytes lru))) \<and>
   not_found_law NewMemory \<and>
   not_found_law (retry memory 2, Map.empty) \<and>
   not_found_law (cache (retry memory 2), (Map.empty, (\<lparr>capacity = 1, entries = []\<rparr> :: bytes lru))) \<and>
   unset ''a''
     (history (cache (retry memory 2))
        [OpSet ''a'' (Bytes [1]), OpSet ''b'' (Bytes [2]), OpDelete ''a'']
        (Map.empty, (\<lparr>capacity = 1, entries = []\<rparr> :: bytes lru))) \<and>
   snd (fst (Get (cache (retry memory 2)) ''a''
      (run (cache (retry memory 2))
         [OpSet ''a'' (Bytes [1]), OpSet ''b'' (Bytes [2]), OpDelete ''a'']
         (Map.empty, (\<lparr>capacity = 1, entries = []\<rparr> :: bytes lru))))) = Some ErrObjectNotFound"
  (is "?r \<and> ?c \<and> ?l0 \<and> ?l1 \<and> ?l2 \<and> ?unset \<and> ?get")
proof -
  have r: ?r by (simp add: NewRetry_def NewMemory_def)
  have c: ?c by (simp add: NewCache_def lru_New_def)
  from unset_key_not_found have l0: ?l0 by (rule conjunct1)
  from unset_key_not_found l0 r have l1: ?l1 by blast
  from unset_key_not_found l1 c have l2: ?l2 by blast
  have u: ?unset
    by (simp add: unset_def writes_def cache_def cache_Set_def cache_Delete_def retry_def
        retry_Set_def retry_Delete_def retry_Set_loop.simps retry_Delete_loop.simps
        memory_def memory_Set_def memory_Delete_def lru_Remove_def lru_Add_def dup_id)
  from l2 u have g: ?get by (simp add: not_found_law_def)
  from r c l0 l1 l2 u g show ?thesis by blast
qed

section \<open>Defensive copies\<close>

lemma copy_make: "length bs = n \<Longrightarrow> copy (make_bytes n) bs = bs"
  by (simp add: copy_def make_bytes_def)

lemma dup_h_nil: "dup_h nil_slice h = (nil_slice, h)"
  by (simp add: dup_h_def)

lemma dup_h_Slice:
  assumes "valid h (Slice a off n)"
  shows "dup_h (Slice a off n) h = (Slice (length h) 0 n, h @ [take n (drop off (h ! a))])"
proof -
  from assms have a: "a < length h" and len: "off + n \<le> length (h ! a)"
    by (simp_all add: valid_def)
  then have l: "length (take n (drop off (h ! a))) = n" by simp
  have "copy (take n (make_bytes n)) (take n (drop off (h ! a))) = take n (drop off (h ! a))"
    using copy_make [OF l] by (simp add: make_bytes_def)
  with a show ?thesis
    by (simp add: dup_h_def make_slice_def copy_slice_def nth_append make_bytes_def)
qed

lemma dup_h_cases:
  assumes "valid h inp" and "dup_h inp h = (out, h')"
  shows "(inp = nil_slice \<and> out = nil_slice \<and> h' = h) \<or>
         (\<exists>n bs. out = Slice (length h) 0 n \<and> h' = h @ [bs] \<and> length bs = n \<and>
                  read_slice h inp = Bytes bs)"
proof (cases inp)
  case nil_slice
  with assms(2) show ?thesis by (simp add: dup_h_nil)
next
  case (Slice a off n)
  with assms(1) have "a < length h" "off + n \<le> length (h ! a)" by (simp_all add: valid_def)
  with assms dup_h_Slice [of h a off n] Slice show ?thesis
    by (auto simp add: read_slice_def)
qed

lemma dup_h_read:
  assumes "valid h inp" and "dup_h inp h = (out, h')"
  shows "read_slice h' out = dup (read_slice h inp)"
  using dup_h_cases [OF assms]
  by (auto simp add: read_slice_def dup_id)

lemma read_slice_append: "valid h sl \<Longrightarrow> read_slice (h @ ext) sl = read_slice h sl"
  by (cases sl) (simp_all add: read_slice_def valid_def nth_append)

lemma valid_append: "valid h sl \<Longrightarrow> valid (h @ ext) sl"
  by (cases sl) (simp_all add: valid_def nth_append)

lemma read_slice_fresh:
  "valid h sl \<Longrightarrow> length h \<le> a' \<Longrightarrow> read_slice (h'[a' := bs]) sl = read_slice h' sl"
  by (cases sl) (auto simp add: read_slice_def valid_def)

lemma memory_h_ingestion:
  assumes v: "valid h v" and a: "a < length h"
    and set: "memory_Set_h key v m h = (err, m1, h1)"
    and get: "memory_Get_h key m1 (h1[a := bs]) = ((r, err'), m2, h2)"
  shows "err = None \<and> err' = None \<and> read_slice h2 r = read_slice h v"
proof -
  obtain out where d: "dup_h v h = (out, h1)" and m1: "m1 = m(key \<mapsto> out)" and e: "err = None"
    using set by (auto simp add: memory_Set_h_def split: prod.splits)
  from dup_h_cases [OF v d] show ?thesis
  proof (elim disjE conjE exE)
    assume "v = nil_slice" "out = nil_slice" "h1 = h"
    with get m1 e show ?thesis
      by (auto simp add: memory_Get_h_def dup_h_nil read_slice_def)
  next
    fix n cs
    assume out: "out = Slice (length h) 0 n" and h1: "h1 = h @ [cs]" and n: "length cs = n"
      and rd: "read_slice h v = Bytes cs"
    from a have upd: "h1[a := bs] = h[a := bs] @ [cs]"
      by (simp add: h1 list_update_append)
    have val: "valid (h[a := bs] @ [cs]) (Slice (length h) 0 n)"
      by (simp add: valid_def nth_append n)
    from get m1 out upd
    have "dup_h (Slice (length h) 0 n) (h[a := bs] @ [cs]) = (r, h2)" and "err' = None"
      by (auto simp add: memory_Get_h_def split: prod.splits)
    with dup_h_read [OF val] have "read_slice h2 r
        = dup (read_slice (h[a := bs] @ [cs]) (Slice (length h) 0 n))"
      by simp
    also have "\<dots> = Bytes cs"
      by (simp add: read_slice_def nth_append n dup_id)
    finally show ?thesis using e rd \<open>err' = None\<close> by simp
  qed
qed

lemma contents_fresh:
  assumes "stored_valid m h" and "length h \<le> a'"
  shows "contents m ((h @ ext)[a' := bs]) = contents m h"
proof (rule ext)
  fix key
  show "contents m ((h @ ext)[a' := bs]) key = contents m h key"
  proof (cases "m key")
    case None
    then show ?thesis by (simp add: contents_def)
  next
    case (Some sl)
    with assms(1) have v: "valid h sl" by (simp add: stored_valid_def)
    from read_slice_fresh [OF v assms(2)] read_slice_append [OF v] Some
    show ?thesis by (simp add: contents_def)
  qed
qed

lemma memory_h_egress:
  assumes wf: "stored_valid m h"
    and get: "memory_Get_h key m h = ((r, err), m1, h1)"
  shows "m1 = m \<and> (r = nil_slice \<or> (\<exists>n. r = Slice (length h) 0 n)) \<and>
         contents m1 (h1[length h := bs]) = contents m h"
proof (cases "m key")
  case None
  with get have "m1 = m" "r = nil_slice" "h1 = h"
    by (simp_all add: memory_Get_h_def)
  moreover have "contents m ((h @ [])[length h := bs]) = contents m h"
    using wf by (rule contents_fresh) simp
  ultimately show ?thesis by simp
next
  case (Some sl)
  with wf have v: "valid h sl" by (simp add: stored_valid_def)
  from get Some have d: "dup_h sl h = (r, h1)" and m1: "m1 = m"
    by (auto simp add: memory_Get_h_def split: prod.splits)
  from dup_h_cases [OF v d] show ?thesis
  proof (elim disjE conjE exE)
    assume "r = nil_slice" "h1 = h"
    moreover have "contents m ((h @ [])[length h := bs]) = contents m h"
      using wf by (rule contents_fresh) simp
    ultimately show ?thesis using m1 by simp
  next
    fix n cs
    assume "r = Slice (length h) 0 n" "h1 = h @ [cs]"
    moreover have "contents m ((h @ [cs])[length h := bs]) = contents m h"
      using wf by (rule contents_fresh) simp
    ultimately show ?thesis using m1 by simp
  qed
qed

lemma dup_h_private:
  assumes v: "valid h inp" and d: "dup_h inp h = (out, h')" and a: "a < length h"
  shows "valid h' out \<and> read_slice h' out = read_slice h inp \<and>
         read_slice (h'[a := bs]) out = read_slice h inp"
  using dup_h_cases [OF v d] a
  by (auto simp add: read_slice_def valid_def nth_append list_update_append)

lemma dup_h_fresh:
  assumes v: "valid h inp" and d: "dup_h inp h = (out, h')"
  shows "(out = nil_slice \<or> (\<exists>n. out = Slice (length h) 0 n)) \<and> (\<exists>ext. h' = h @ ext)"
  using dup_h_cases [OF v d] by auto

lemma cache_h_Set_ingestion:
  assumes cap: "0 < capacity c"
    and base: "Set_h base key v s h = (None, s1, hb)"
    and v: "valid hb v" and a: "a < length hb"
    and set: "cache_Set_h base key v (s, c) h = (err, (s2, c2), h2)"
  shows "err = None \<and> s2 = s1 \<and>
         (\<exists>e. map_of (entries c2) key = Some e \<and> valid h2 e \<and>
              read_slice h2 e = read_slice hb v \<and>
              read_slice (h2[a := bs]) e = read_slice hb v)"
proof -
  from set base obtain cp where d: "dup_h v hb = (cp, h2)"
    and c2: "c2 = lru_Add (lru_Remove c key) key cp" and e: "err = None" "s2 = s1"
    by (auto simp add: cache_Set_h_def Let_def split: prod.splits)
  from cap have "0 < capacity (lru_Remove c key)" by (simp add: lru_Remove_def)
  then have "map_of (entries c2) key = Some cp" unfolding c2 by (rule lru_Add_held)
  with dup_h_private [OF v d a, of bs] e show ?thesis by simp
qed

lemma cache_h_Get_copy:
  assumes hit: "map_of (entries c) key = Some e" and v: "valid h e"
    and get: "cache_Get_h base key (s, c) h = ((r, err), (s1, c1), h1)"
  shows "err = None \<and> s1 = s \<and> read_slice h1 r = read_slice h e"
proof -
  from get hit have d: "dup_h e h = (r, h1)" and e: "err = None" "s1 = s"
    by (auto simp add: cache_Get_h_def lru_Get_hit split: prod.splits)
  from dup_h_read [OF v d] e show ?thesis by (simp add: dup_id)
qed

lemma map_of_filter_other:
  "k \<noteq> key \<Longrightarrow> map_of (filter (\<lambda>x. fst x \<noteq> key) es) k = map_of es k"
  by (induction es) auto

lemma cache_h_Get_egress:
  assumes hit: "map_of (entries c) key = Some e" and wf: "cached_valid c h"
    and get: "cache_Get_h base key (s, c) h = ((r, err), (s1, c1), h1)"
  shows "(r = nil_slice \<or> (\<exists>n. r = Slice (length h) 0 n)) \<and>
         (\<forall>k sl. map_of (entries c1) k = Some sl \<longrightarrow>
            map_of (entries c) k = Some sl \<and>
            read_slice (h1[length h := bs]) sl = read_slice h sl)"
proof -
  from hit wf have v: "valid h e" by (simp add: cached_valid_def)
  from get hit have d: "dup_h e h = (r, h1)"
    and c1: "c1 = c\<lparr>entries := (key, e) # filter (\<lambda>x. fst x \<noteq> key) (entries c)\<rparr>"
    by (auto simp add: cache_Get_h_def lru_Get_hit split: prod.splits)
  from dup_h_fresh [OF v d] obtain ext where r: "r = nil_slice \<or> (\<exists>n. r = Slice (length h) 0 n)"
    and h1: "h1 = h @ ext" by blast
  have same: "map_of (entries c) k = Some sl" if "map_of (entries c1) k = Some sl" for k sl
  proof (cases "k = key")
    case True
    with that hit show ?thesis by (simp add: c1)
  next
    case False
    from that False show ?thesis by (simp add: c1 map_of_filter_other)
  qed
  have "read_slice (h1[length h := bs]) sl = read_slice h sl"
    if "map_of (entries c1) k = Some sl" for k sl
  proof -
    from same [OF that] wf have vs: "valid h sl" by (simp add: cached_valid_def)
    from read_slice_fresh [OF vs, of "length h" h1 bs] read_slice_append [OF vs, of ext]
    show ?thesis by (simp add: h1)
  qed
  with r same show ?thesis by blast
qed

lemma cache_h_Get_fill:
  assumes cap: "0 < capacity c"
    and miss: "map_of (entries c) key = None"
    and base: "Get_h base key s h = ((d, None), s1, hb)"
    and v: "valid hb d" and a: "a < length hb"
    and get: "cache_Get_h base key (s, c) h = ((r, err), (s2, c2), h2)"
  shows "r = d \<and> err = None \<and> s2 = s1 \<and>
         (\<exists>e. map_of (entries c2) key = Some e \<and> valid h2 e \<and>
              read_slice h2 e = read_slice hb d \<and>
              read_slice (h2[a := bs]) e = read_slice hb d)"
proof -
  from get miss base obtain cp where d: "dup_h d hb = (cp, h2)"
    and c2: "c2 = lru_Add c key cp" and e: "r = d" "err = None" "s2 = s1"
    by (auto simp add: cache_Get_h_def lru_Get_miss split: prod.splits)
  from cap have "map_of (entries c2) key = Some cp" unfolding c2 by (rule lru_Add_held)
  with dup_h_private [OF v d a, of bs] e show ?thesis by simp
qed

text \<open>The store over slices does what the store over values does: reading the slices, each
  method returns the results of its counterpart and leaves the contents its counterpart
  leaves.\<close>

lemma contents_append:
  assumes "stored_valid m h"
  shows "contents m (h @ ext) = contents m h"
proof (rule ext)
  fix key
  show "contents m (h @ ext) key = contents m h key"
  proof (cases "m key")
    case None
    then show ?thesis by (simp add: contents_def)
  next
    case (Some sl)
    with assms have "valid h sl" by (simp add: stored_valid_def)
    with Some show ?thesis by (simp add: contents_def read_slice_append)
  qed
qed

lemma stored_valid_append: "stored_valid m h \<Longrightarrow> stored_valid m (h @ ext)"
  by (simp add: stored_valid_def valid_append)

lemma dup_h_ext:
  assumes "valid h inp" and "dup_h inp h = (out, h')"
  shows "\<exists>ext. h' = h @ ext \<and> valid h' out \<and> read_slice h' out = read_slice h inp"
proof -
  from dup_h_cases [OF assms] show ?thesis
  proof (elim disjE conjE exE)
    assume "inp = nil_slice" "out = nil_slice" "h' = h"
    then have "h' = h @ [] \<and> valid h' out \<and> read_slice h' out = read_slice h inp"
      by (simp add: valid_def)
    then show ?thesis by (rule exI)
  next
    fix n bs
    assume "out = Slice (length h) 0 n" "h' = h @ [bs]" "length bs = n"
      "read_slice h inp = Bytes bs"
    then have "h' = h @ [bs] \<and> valid h' out \<and> read_slice h' out = read_slice h inp"
      by (simp add: valid_def read_slice_def)
    then show ?thesis by (rule exI)
  qed
qed

lemma memory_Get_h_refines:
  assumes wf: "stored_valid m h"
    and get: "memory_Get_h key m h = ((r, err), m', h')"
  shows "memory_Get key (contents m h) = ((read_slice h' r, err), contents m' h') \<and>
         stored_valid m' h' \<and> valid h' r"
proof (cases "m key")
  case None
  with get wf show ?thesis
    by (auto simp add: memory_Get_h_def memory_Get_def contents_def read_slice_def valid_def)
next
  case (Some sl)
  with wf have v: "valid h sl" by (simp add: stored_valid_def)
  from get Some have d: "dup_h sl h = (r, h')" and e: "err = None" "m' = m"
    by (auto simp add: memory_Get_h_def split: prod.splits)
  from dup_h_ext [OF v d] obtain ext where x: "h' = h @ ext" "valid h' r"
    "read_slice h' r = read_slice h sl" by blast
  from Some have "memory_Get key (contents m h) = ((read_slice h sl, None), contents m h)"
    by (simp add: memory_Get_def contents_def dup_id)
  with x e wf show ?thesis
    by (simp add: contents_append stored_valid_append)
qed

lemma memory_Set_h_refines:
  assumes wf: "stored_valid m h" and v: "valid h v"
    and set: "memory_Set_h key v m h = (err, m', h')"
  shows "memory_Set key (read_slice h v) (contents m h) = (err, contents m' h') \<and>
         stored_valid m' h'"
proof -
  from set obtain out where d: "dup_h v h = (out, h')" and e: "err = None" "m' = m(key \<mapsto> out)"
    by (auto simp add: memory_Set_h_def split: prod.splits)
  from dup_h_ext [OF v d] obtain ext where x: "h' = h @ ext" "valid h' out"
    "read_slice h' out = read_slice h v" by blast
  have "contents (m(key \<mapsto> out)) h' = (contents m h)(key \<mapsto> read_slice h v)"
  proof (rule ext)
    fix k
    show "contents (m(key \<mapsto> out)) h' k = ((contents m h)(key \<mapsto> read_slice h v)) k"
      using contents_append [OF wf, of ext] x
      by (cases "k = key") (simp_all add: contents_def fun_eq_iff)
  qed
  moreover have "stored_valid (m(key \<mapsto> out)) h'"
    using stored_valid_append [OF wf, of ext] x by (simp add: stored_valid_def)
  ultimately show ?thesis
    by (simp add: e memory_Set_def dup_id)
qed

lemma memory_Delete_h_refines:
  assumes wf: "stored_valid m h"
    and del: "memory_Delete_h key m h = (err, m', h')"
  shows "memory_Delete key (contents m h) = (err, contents m' h') \<and> stored_valid m' h'"
proof -
  from del have e: "err = None" "m' = m(key := None)" "h' = h"
    by (simp_all add: memory_Delete_h_def)
  have "contents (m(key := None)) h = (contents m h)(key := None)"
    by (rule ext) (simp add: contents_def)
  moreover from wf have "stored_valid (m(key := None)) h"
    by (simp add: stored_valid_def)
  ultimately show ?thesis by (simp add: e memory_Delete_def)
qed

text \<open>
  Claim C9. Value bytes are copied on the way in and on the way out.
  For the store in memory: after \<^verbatim>\<open>Set\<close> of a key with the caller's buffer, whatever is written
  to an array that existed when \<^verbatim>\<open>Set\<close> was called (the caller's buffer is one), the \<^verbatim>\<open>Get\<close>
  of the key returns the bytes the buffer showed at the call; and the buffer \<^verbatim>\<open>Get\<close> returns
  is \<^verbatim>\<open>nil\<close> or a new array, so that whatever is written to it the contents of the store are
  what they were.
  For the caching store and the entries of its cache: the entry a successful \<^verbatim>\<open>Set\<close> puts in
  is a copy that no write to an array existing at the time (the caller's buffer is one)
  changes; a \<^verbatim>\<open>Get\<close> that hits returns a copy, \<^verbatim>\<open>nil\<close> or a new array, and whatever is written
  to it every entry of the cache shows what it did; the entry a \<^verbatim>\<open>Get\<close> that misses puts in
  is a copy that no write to an array existing at the time (the buffer returned to the
  caller is one) changes.
\<close>

theorem defensive_copies:
  "(valid h v \<and> a < length h \<and>
    memory_Set_h key v m h = (err, m1, h1) \<and>
    memory_Get_h key m1 (h1[a := bs]) = ((r, err'), m2, h2) \<longrightarrow>
      err = None \<and> err' = None \<and> read_slice h2 r = read_slice h v) \<and>
   (stored_valid m h \<and> memory_Get_h key m h = ((r', err''), m', h') \<longrightarrow>
      m' = m \<and> (r' = nil_slice \<or> (\<exists>n. r' = Slice (length h) 0 n)) \<and>
      contents m' (h'[length h := bs]) = contents m h) \<and>
   (0 < capacity c \<and> Set_h base key v s h = (None, s1, hb) \<and> valid hb v \<and> a < length hb \<and>
    cache_Set_h base key v (s, c) h = (cerr, (s2, c2), hc) \<longrightarrow>
      cerr = None \<and> s2 = s1 \<and>
      (\<exists>e. map_of (entries c2) key = Some e \<and> valid hc e \<and>
           read_slice hc e = read_slice hb v \<and>
           read_slice (hc[a := bs]) e = read_slice hb v)) \<and>
   (cached_valid c h \<and> map_of (entries c) key = Some e \<and>
    cache_Get_h base key (s, c) h = ((cr, gerr), (s3, c3), hg) \<longrightarrow>
      gerr = None \<and> s3 = s \<and> read_slice hg cr = read_slice h e \<and>
      (cr = nil_slice \<or> (\<exists>n. cr = Slice (length h) 0 n)) \<and>
      (\<forall>k sl. map_of (entries c3) k = Some sl \<longrightarrow>
         map_of (entries c) k = Some sl \<and>
         read_slice (hg[length h := bs]) sl = read_slice h sl)) \<and>
   (0 < capacity c \<and> map_of (entries c) key = None \<and>
    Get_h base key s h = ((d, None), s4, hw) \<and> valid hw d \<and> a < length hw \<and>
    cache_Get_h base key (s, c) h = ((fr, ferr), (s5, c5), hf) \<longrightarrow>
      fr = d \<and> ferr = None \<and> s5 = s4 \<and>
      (\<exists>e. map_of (entries c5) key = Some e \<and> valid hf e \<and>
           read_slice hf e = read_slice hw d \<and>
           read_slice (hf[a := bs]) e = read_slice hw d))"
proof -
  have p1: "valid h v \<and> a < length h \<and>
    memory_Set_h key v m h = (err, m1, h1) \<and>
    memory_Get_h key m1 (h1[a := bs]) = ((r, err'), m2, h2) \<longrightarrow>
      err = None \<and> err' = None \<and> read_slice h2 r = read_slice h v"
    using memory_h_ingestion [of h v a key m err m1 h1 bs r err' m2 h2] by simp
  have p2: "stored_valid m h \<and> memory_Get_h key m h = ((r', err''), m', h') \<longrightarrow>
      m' = m \<and> (r' = nil_slice \<or> (\<exists>n. r' = Slice (length h) 0 n)) \<and>
      contents m' (h'[length h := bs]) = contents m h"
    using memory_h_egress [of m h key r' err'' m' h' bs] by simp
  have p3: "0 < capacity c \<and> Set_h base key v s h = (None, s1, hb) \<and> valid hb v \<and>
    a < length hb \<and> cache_Set_h base key v (s, c) h = (cerr, (s2, c2), hc) \<longrightarrow>
      cerr = None \<and> s2 = s1 \<and>
      (\<exists>e. map_of (entries c2) key = Some e \<and> valid hc e \<and>
           read_slice hc e = read_slice hb v \<and>
           read_slice (hc[a := bs]) e = read_slice hb v)"
    using cache_h_Set_ingestion [of c base key v s h s1 hb a cerr s2 c2 hc bs] by simp
  have p4: "gerr = None \<and> s3 = s \<and> read_slice hg cr = read_slice h e \<and>
      (cr = nil_slice \<or> (\<exists>n. cr = Slice (length h) 0 n)) \<and>
      (\<forall>k sl. map_of (entries c3) k = Some sl \<longrightarrow>
         map_of (entries c) k = Some sl \<and>
         read_slice (hg[length h := bs]) sl = read_slice h sl)"
    if hyp: "cached_valid c h \<and> map_of (entries c) key = Some e \<and>
      cache_Get_h base key (s, c) h = ((cr, gerr), (s3, c3), hg)"
  proof -
    from hyp have wf: "cached_valid c h" and hit: "map_of (entries c) key = Some e"
      and get: "cache_Get_h base key (s, c) h = ((cr, gerr), (s3, c3), hg)"
      by (rule conjunct1, rule conjunct2 [THEN conjunct1], rule conjunct2 [THEN conjunct2])
    from wf hit have v: "valid h e" unfolding cached_valid_def by blast
    from cache_h_Get_copy [OF hit v get] cache_h_Get_egress [OF hit wf get, of bs]
    show ?thesis by (elim conjE) (intro conjI; assumption)
  qed
  have p5: "0 < capacity c \<and> map_of (entries c) key = None \<and>
    Get_h base key s h = ((d, None), s4, hw) \<and> valid hw d \<and> a < length hw \<and>
    cache_Get_h base key (s, c) h = ((fr, ferr), (s5, c5), hf) \<longrightarrow>
      fr = d \<and> ferr = None \<and> s5 = s4 \<and>
      (\<exists>e. map_of (entries c5) key = Some e \<and> valid hf e \<and>
           read_slice hf e = read_slice hw d \<and>
           read_slice (hf[a := bs]) e = read_slice hw d)"
    using cache_h_Get_fill [of c key base s h d s4 hw a fr ferr s5 c5 hf bs] by simp
  show ?thesis
    by (intro conjI) (rule p1, rule p2, rule p3, rule impI, erule p4, rule p5)
qed

theorem defensive_copies_witness:
  "valid [[1, 2, 3]] (Slice 0 0 3) \<and> (0::nat) < length [[1, 2, 3 :: byte]] \<and>
   memory_Set_h ''k'' (Slice 0 0 3) Map.empty [[1, 2, 3]]
     = (None, [''k'' \<mapsto> Slice 1 0 3], [[1, 2, 3], [1, 2, 3]]) \<and>
   memory_Get_h ''k'' [''k'' \<mapsto> Slice 1 0 3] ([[1, 2, 3], [1, 2, 3]][0 := [9, 9, 9]])
     = ((Slice 2 0 3, None), [''k'' \<mapsto> Slice 1 0 3], [[9, 9, 9], [1, 2, 3], [1, 2, 3]]) \<and>
   read_slice [[9, 9, 9], [1, 2, 3], [1, 2, 3]] (Slice 2 0 3)
     = read_slice [[1, 2, 3]] (Slice 0 0 3) \<and>
   stored_valid [''k'' \<mapsto> Slice 0 0 2] [[5, 6]] \<and>
   memory_Get_h ''k'' [''k'' \<mapsto> Slice 0 0 2] [[5, 6]]
     = ((Slice 1 0 2, None), [''k'' \<mapsto> Slice 0 0 2], [[5, 6], [5, 6]]) \<and>
   contents [''k'' \<mapsto> Slice 0 0 2] ([[5, 6], [5, 6]][length [[5, 6 :: byte]] := [0, 0]])
     = contents [''k'' \<mapsto> Slice 0 0 2] [[5, 6]] \<and>
   (0::int) < capacity (\<lparr>capacity = 1, entries = []\<rparr> :: slice lru) \<and>
   Set_h memory_h ''k'' (Slice 0 0 3) Map.empty [[1, 2, 3]]
     = (None, [''k'' \<mapsto> Slice 1 0 3], [[1, 2, 3], [1, 2, 3]]) \<and>
   valid [[1, 2, 3], [1, 2, 3]] (Slice 0 0 3) \<and>
   cache_Set_h memory_h ''k'' (Slice 0 0 3) (Map.empty, \<lparr>capacity = 1, entries = []\<rparr>)
       [[1, 2, 3]]
     = (None, ([''k'' \<mapsto> Slice 1 0 3], \<lparr>capacity = 1, entries = [(''k'', Slice 2 0 3)]\<rparr>),
        [[1, 2, 3], [1, 2, 3], [1, 2, 3]]) \<and>
   read_slice ([[1, 2, 3], [1, 2, 3], [1, 2, 3]][0 := [9, 9, 9]]) (Slice 2 0 3)
     = read_slice [[1, 2, 3], [1, 2, 3]] (Slice 0 0 3) \<and>
   cached_valid \<lparr>capacity = 1, entries = [(''k'', Slice 0 0 2)]\<rparr> [[5, 6]] \<and>
   cache_Get_h memory_h ''k'' (Map.empty, \<lparr>capacity = 1, entries = [(''k'', Slice 0 0 2)]\<rparr>)
       [[5, 6]]
     = ((Slice 1 0 2, None),
        (Map.empty, \<lparr>capacity = 1, entries = [(''k'', Slice 0 0 2)]\<rparr>), [[5, 6], [5, 6]]) \<and>
   read_slice ([[5, 6], [5, 6]][length [[5, 6 :: byte]] := [0, 0]]) (Slice 0 0 2)
     = read_slice [[5, 6]] (Slice 0 0 2) \<and>
   Get_h memory_h ''k'' [''k'' \<mapsto> Slice 0 0 2] [[5, 6]]
     = ((Slice 1 0 2, None), [''k'' \<mapsto> Slice 0 0 2], [[5, 6], [5, 6]]) \<and>
   cache_Get_h memory_h ''k'' ([''k'' \<mapsto> Slice 0 0 2], \<lparr>capacity = 1, entries = []\<rparr>)
       [[5, 6]]
     = ((Slice 1 0 2, None),
        ([''k'' \<mapsto> Slice 0 0 2], \<lparr>capacity = 1, entries = [(''k'', Slice 2 0 2)]\<rparr>),
        [[5, 6], [5, 6], [5, 6]]) \<and>
   read_slice ([[5, 6], [5, 6], [5, 6]][1 := [0, 0]]) (Slice 2 0 2)
     = read_slice [[5, 6], [5, 6]] (Slice 1 0 2)"
  (is "?v1 \<and> ?a1 \<and> ?set1 \<and> ?get1 \<and> ?c1 \<and> ?wf2 \<and> ?get2 \<and> ?c2 \<and> ?cap3 \<and> ?base3 \<and> ?v3
       \<and> ?set3 \<and> ?c3 \<and> ?wf4 \<and> ?get4 \<and> ?c4 \<and> ?base5 \<and> ?get5 \<and> ?c5")
proof -
  note ev = valid_def dup_h_def make_slice_def copy_slice_def copy_def make_bytes_def
    memory_Set_h_def memory_Get_h_def memory_h_def cache_Set_h_def cache_Get_h_def
    lru_Remove_def lru_Add_def lru_Get_def
  have v1: ?v1 and a1: ?a1 and set1: ?set1 and get1: ?get1 by (simp_all add: ev)
  have wf2: ?wf2 by (simp add: stored_valid_def valid_def)
  have get2: ?get2 by (simp add: ev)
  have cap3: ?cap3 and base3: ?base3 and v3: ?v3 and set3: ?set3 by (simp_all add: ev)
  have wf4: ?wf4 by (simp add: cached_valid_def valid_def)
  have get4: ?get4 and base5: ?base5 and get5: ?get5 by (simp_all add: ev)
  have m5: "map_of (entries (\<lparr>capacity = 1, entries = []\<rparr> :: slice lru)) ''k'' = None"
    by simp
  have m4: "map_of (entries \<lparr>capacity = 1, entries = [(''k'', Slice 0 0 2)]\<rparr>) ''k''
              = Some (Slice 0 0 2)"
    by simp
  have v5: "valid [[5, 6], [5, 6]] (Slice 1 0 2)" and a5: "(1::nat) < length [[5, 6], [5, 6 :: byte]]"
    by (simp_all add: valid_def)
  have a3: "(0::nat) < length [[1, 2, 3], [1, 2, 3 :: byte]]" by simp
  from defensive_copies [THEN conjunct1, rule_format, OF conjI [OF v1 conjI [OF a1 conjI [OF set1 get1]]]]
  have c1: ?c1 by simp
  from defensive_copies [THEN conjunct2, THEN conjunct1, rule_format, OF conjI [OF wf2 get2],
      of "[0, 0]"]
  have c2: ?c2 by simp
  from defensive_copies [THEN conjunct2, THEN conjunct2, THEN conjunct1, rule_format,
      OF conjI [OF cap3 conjI [OF base3 conjI [OF v3 conjI [OF a3 set3]]]], of "[9, 9, 9]"]
  have c3: ?c3 by simp
  from defensive_copies [THEN conjunct2, THEN conjunct2, THEN conjunct2, THEN conjunct1,
      rule_format, OF conjI [OF wf4 conjI [OF m4 get4]], of "[0, 0]"]
  have c4: ?c4 by simp
  from defensive_copies [THEN conjunct2, THEN conjunct2, THEN conjunct2, THEN conjunct2,
      rule_format, OF conjI [OF cap3 conjI [OF m5 conjI [OF base5 conjI [OF v5 conjI [OF a5 get5]]]]],
      of "[0, 0]"]
  have c5: ?c5 by simp
  from v1 a1 set1 get1 c1 wf2 get2 c2 cap3 base3 v3 set3 c3 wf4 get4 c4 base5 get5 c5
  show ?thesis by (intro conjI)
qed

end
